theory Spec2Isabelle
  imports Main "HOL-Library.AList" "HOL-Library.Sublist"
begin

section \<open>Text\<close>

text \<open>
  A JavaScript string is modelled as a \<^typ>\<open>string\<close>: a list of code units, each below 256
  (U+0000 to U+00FF).  In that range the white space of \<^verbatim>\<open>\s\<close> and of \<^verbatim>\<open>trim()\<close> is
  TAB, LF, VT, FF, CR, SPACE and NBSP, and the case folding of the \<^verbatim>\<open>i\<close> flag only
  relates the ASCII letters to one another as far as the patterns of this program
  (ASCII literals and the class \<^verbatim>\<open>[a-z]\<close>) can tell.
\<close>

definition is_space :: "char \<Rightarrow> bool" where
  "is_space c = (c = CHR 0x09 \<or> c = CHR 0x0A \<or> c = CHR 0x0B \<or> c = CHR 0x0C \<or> c = CHR 0x0D
                 \<or> c = CHR 0x20 \<or> c = CHR 0xA0)"

definition lower_letters :: string where
  "lower_letters = ''abcdefghijklmnopqrstuvwxyz''"

definition upper_letters :: string where
  "upper_letters = ''ABCDEFGHIJKLMNOPQRSTUVWXYZ''"

definition is_lower :: "char \<Rightarrow> bool" where
  "is_lower c = (c \<in> set lower_letters)"

definition is_upper :: "char \<Rightarrow> bool" where
  "is_upper c = (c \<in> set upper_letters)"

definition is_digit :: "char \<Rightarrow> bool" where
  "is_digit c = (c \<in> set ''0123456789'')"

definition to_upper :: "char \<Rightarrow> char" where
  "to_upper c = (case map_of (zip lower_letters upper_letters) c of None \<Rightarrow> c | Some u \<Rightarrow> u)"

definition to_lower :: "char \<Rightarrow> char" where
  "to_lower c = (case map_of (zip upper_letters lower_letters) c of None \<Rightarrow> c | Some l \<Rightarrow> l)"

text \<open>\<^verbatim>\<open>String.prototype.trim\<close>.\<close>

definition trim :: "string \<Rightarrow> string" where
  "trim s = rev (dropWhile is_space (rev (dropWhile is_space s)))"

section \<open>Regular expressions\<close>

text \<open>
  The patterns of the program use single characters and character classes, the
  quantifiers \<^verbatim>\<open>*\<close>, \<^verbatim>\<open>+\<close> and \<^verbatim>\<open>*?\<close> on a character class only, sequence, alternation,
  capture groups and one back-reference.  \<open>CSet neg P\<close> is the class of the characters
  satisfying \<open>P\<close>, inverted (\<^verbatim>\<open>[^...]\<close>) when \<open>neg\<close> holds; \<open>Many greedy a\<close> is \<^verbatim>\<open>a*\<close> or
  \<^verbatim>\<open>a*?\<close>.
\<close>

datatype cset = CSet bool "char \<Rightarrow> bool"

datatype rx =
    Eps
  | One cset
  | Many bool cset
  | Seq rx rx
  | Alt rx rx
  | Grp nat rx
  | Back nat

type_synonym caps = "nat \<Rightarrow> string option"

text \<open>
  Whether a character is in a class.  With the \<^verbatim>\<open>i\<close> flag a character is found in the
  class when some member of the class has the same canonical (upper-case) form.
\<close>

fun cset_ok :: "bool \<Rightarrow> cset \<Rightarrow> char \<Rightarrow> bool" where
  "cset_ok ic (CSet neg P) c =
     ((if ic then P c \<or> P (to_upper c) \<or> P (to_lower c) else P c) \<noteq> neg)"

text \<open>
  The backtracking matcher, in continuation-passing style as in the ECMAScript
  specification: \<open>k\<close> is what remains to be matched, \<open>None\<close> is failure, and the first
  success in priority order is the result.
\<close>

fun many_greedy :: "(char \<Rightarrow> bool) \<Rightarrow> (string \<Rightarrow> 'r option) \<Rightarrow> string \<Rightarrow> 'r option" where
  "many_greedy ok k [] = k []"
| "many_greedy ok k (c # s) =
     (if ok c then (case many_greedy ok k s of Some r \<Rightarrow> Some r | None \<Rightarrow> k (c # s))
      else k (c # s))"

fun many_lazy :: "(char \<Rightarrow> bool) \<Rightarrow> (string \<Rightarrow> 'r option) \<Rightarrow> string \<Rightarrow> 'r option" where
  "many_lazy ok k [] = k []"
| "many_lazy ok k (c # s) =
     (case k (c # s) of Some r \<Rightarrow> Some r
      | None \<Rightarrow> if ok c then many_lazy ok k s else None)"

definition same_text :: "bool \<Rightarrow> string \<Rightarrow> string \<Rightarrow> bool" where
  "same_text ic u v = (if ic then map to_upper u = map to_upper v else u = v)"

primrec rx_match :: "bool \<Rightarrow> rx \<Rightarrow> (caps \<Rightarrow> string \<Rightarrow> 'r option) \<Rightarrow> caps \<Rightarrow> string \<Rightarrow> 'r option" where
  "rx_match ic Eps k cs s = k cs s"
| "rx_match ic (One a) k cs s =
     (case s of [] \<Rightarrow> None | c # t \<Rightarrow> if cset_ok ic a c then k cs t else None)"
| "rx_match ic (Many greedy a) k cs s =
     (if greedy then many_greedy (cset_ok ic a) (k cs) s else many_lazy (cset_ok ic a) (k cs) s)"
| "rx_match ic (Seq r1 r2) k cs s = rx_match ic r1 (rx_match ic r2 k) cs s"
| "rx_match ic (Alt r1 r2) k cs s =
     (case rx_match ic r1 k cs s of Some r \<Rightarrow> Some r | None \<Rightarrow> rx_match ic r2 k cs s)"
| "rx_match ic (Grp i r) k cs s =
     rx_match ic r (\<lambda>cs' t. k (cs'(i \<mapsto> take (length s - length t) s)) t) cs s"
| "rx_match ic (Back i) k cs s =
     (case cs i of None \<Rightarrow> k cs s
      | Some w \<Rightarrow> if length w \<le> length s \<and> same_text ic (take (length w) s) w
                  then k cs (drop (length w) s) else None)"

text \<open>A match starting at the head of \<open>s\<close>: the captures and the text after the match.\<close>

definition match_here :: "bool \<Rightarrow> rx \<Rightarrow> string \<Rightarrow> (caps \<times> string) option" where
  "match_here ic r s = rx_match ic r (\<lambda>cs t. Some (cs, t)) Map.empty s"

text \<open>
  The search of \<^verbatim>\<open>RegExp.prototype.exec\<close>: the leftmost match in \<open>s\<close>, as its index,
  its text and its captures.
\<close>

fun exec :: "bool \<Rightarrow> rx \<Rightarrow> string \<Rightarrow> (nat \<times> string \<times> caps) option" where
  "exec ic r [] =
     (case match_here ic r [] of None \<Rightarrow> None | Some (cs, t) \<Rightarrow> Some (0, [], cs))"
| "exec ic r (c # s) =
     (case match_here ic r (c # s) of
        None \<Rightarrow> map_option (\<lambda>(i, m, cs). (Suc i, m, cs)) (exec ic r s)
      | Some (cs, t) \<Rightarrow> Some (0, take (length (c # s) - length t) (c # s), cs))"

text \<open>The index and the text of the leftmost match.\<close>

definition find_match :: "bool \<Rightarrow> rx \<Rightarrow> string \<Rightarrow> (nat \<times> string) option" where
  "find_match ic r s = map_option (\<lambda>(i, m, cs). (i, m)) (exec ic r s)"

text \<open>
  \<^verbatim>\<open>String.prototype.replace\<close> with a \<^verbatim>\<open>g\<close> pattern and a replacer function \<open>f\<close> of the
  matched text and the captures.  The scan goes from left to right; \<open>n\<close> counts the
  characters of the current match still to be skipped.  After a match the scan resumes
  behind it (one character further when the match is empty), and the replacement is
  never scanned again.
\<close>

fun replace_from :: "bool \<Rightarrow> rx \<Rightarrow> (string \<Rightarrow> caps \<Rightarrow> string) \<Rightarrow> nat \<Rightarrow> string \<Rightarrow> string" where
  "replace_from ic r f n [] =
     (if n = 0 then (case match_here ic r [] of None \<Rightarrow> [] | Some (cs, t) \<Rightarrow> f [] cs) else [])"
| "replace_from ic r f (Suc n) (c # s) = replace_from ic r f n s"
| "replace_from ic r f 0 (c # s) =
     (case match_here ic r (c # s) of
        None \<Rightarrow> c # replace_from ic r f 0 s
      | Some (cs, t) \<Rightarrow>
          (let len = length (c # s) - length t in
           f (take len (c # s)) cs @
           (if len = 0 then c # replace_from ic r f 0 s else replace_from ic r f (len - 1) s)))"

definition replace_all :: "bool \<Rightarrow> rx \<Rightarrow> (string \<Rightarrow> caps \<Rightarrow> string) \<Rightarrow> string \<Rightarrow> string" where
  "replace_all ic r f s = replace_from ic r f 0 s"

text \<open>Pattern notation.\<close>

definition rx_chr :: "char \<Rightarrow> rx" where
  "rx_chr c = One (CSet False (\<lambda>x. x = c))"

primrec lit :: "string \<Rightarrow> rx" where
  "lit [] = Eps"
| "lit (c # cs) = Seq (rx_chr c) (lit cs)"

primrec seqs :: "rx list \<Rightarrow> rx" where
  "seqs [] = Eps"
| "seqs (r # rs) = Seq r (seqs rs)"

definition any_char :: cset where
  "any_char = CSet False (\<lambda>c. True)"

definition cs_space :: cset where
  "cs_space = CSet False is_space"

definition none_of :: "string \<Rightarrow> cset" where
  "none_of cs = CSet True (\<lambda>c. c \<in> set cs)"

definition one_of :: "string \<Rightarrow> cset" where
  "one_of cs = CSet False (\<lambda>c. c \<in> set cs)"

definition rx_star :: "cset \<Rightarrow> rx" where
  "rx_star a = Many True a"

definition rx_plus :: "cset \<Rightarrow> rx" where
  "rx_plus a = Seq (One a) (Many True a)"

definition rx_lazy :: "cset \<Rightarrow> rx" where
  "rx_lazy a = Many False a"

definition lower_az :: cset where
  "lower_az = CSet False is_lower"

section \<open>The markup sanitizer\<close>

text \<open>The three forms of a value: \<^verbatim>\<open>"[^"]*"\<close>, \<^verbatim>\<open>'[^']*'\<close> and \<^verbatim>\<open>\{[^}]*\}\<close>.\<close>

definition dq_value :: rx where
  "dq_value = seqs [rx_chr CHR 0x22, rx_star (none_of [CHR 0x22]), rx_chr CHR 0x22]"

definition sq_value :: rx where
  "sq_value = seqs [rx_chr CHR 0x27, rx_star (none_of [CHR 0x27]), rx_chr CHR 0x27]"

definition brace_value :: rx where
  "brace_value = seqs [rx_chr CHR ''{'', rx_star (none_of ''}''), rx_chr CHR ''}'']"

text \<open>\<^verbatim>\<open>/<script[\s\S]*?<\/script>/gi\<close>\<close>

definition script_rx :: rx where
  "script_rx = seqs [lit ''<script'', rx_lazy any_char, lit ''</script>'']"

text \<open>\<^verbatim>\<open>/\son[a-z]+\s*=\s*V/gi\<close> for a value form \<open>V\<close>.\<close>

definition handler_rx :: "rx \<Rightarrow> rx" where
  "handler_rx v = seqs [One cs_space, lit ''on'', rx_plus lower_az, rx_star cs_space, rx_chr CHR ''='',
                        rx_star cs_space, v]"

text \<open>\<^verbatim>\<open>/style=V/gi\<close> for a value form \<open>V\<close>.\<close>

definition style_rx :: "rx \<Rightarrow> rx" where
  "style_rx v = Seq (lit ''style='') v"

definition remove_all :: "rx \<Rightarrow> string \<Rightarrow> string" where
  "remove_all r s = replace_all True r (\<lambda>m cs. []) s"

definition sanitizeMarkup :: "string \<Rightarrow> string" where
  "sanitizeMarkup source =
     remove_all (style_rx sq_value)
       (remove_all (style_rx dq_value)
         (remove_all (style_rx brace_value)
           (remove_all (handler_rx brace_value)
             (remove_all (handler_rx sq_value)
               (remove_all (handler_rx dq_value)
                 (remove_all script_rx source))))))"


section \<open>Attributes\<close>

text \<open>\<^verbatim>\<open>Array.prototype.join\<close> on strings.\<close>

fun join :: "string \<Rightarrow> string list \<Rightarrow> string" where
  "join sep [] = []"
| "join sep [x] = x"
| "join sep (x # y # ys) = x @ sep @ join sep (y # ys)"

text \<open>
  \<^verbatim>\<open>String.prototype.split\<close> on a pattern \<^verbatim>\<open>[...]+\<close>, for the class \<open>P\<close>: the pieces between
  the maximal runs of separator characters, an empty piece when the text starts or ends
  with a separator.  \<open>insep\<close> holds while the scan is inside a run, \<open>acc\<close> is the
  piece read so far, reversed.
\<close>

fun split_from :: "(char \<Rightarrow> bool) \<Rightarrow> bool \<Rightarrow> string \<Rightarrow> string \<Rightarrow> string list" where
  "split_from P insep acc [] = [rev acc]"
| "split_from P insep acc (c # s) =
     (if P c then (if insep then split_from P True [] s else rev acc # split_from P True [] s)
      else split_from P False (c # acc) s)"

definition split_runs :: "(char \<Rightarrow> bool) \<Rightarrow> string \<Rightarrow> string list" where
  "split_runs P s = split_from P False [] s"

definition nonempty :: "string \<Rightarrow> bool" where
  "nonempty s = (s \<noteq> [])"

text \<open>\<^verbatim>\<open>value.replace(/[`"'{}]/g, " ").split(/\s+/).filter(Boolean)\<close>\<close>

definition splitClasses :: "string \<Rightarrow> string list" where
  "splitClasses v =
     (if v = [] then []
      else filter nonempty
             (split_runs is_space
               (replace_all False (One (one_of [CHR 0x60, CHR 0x22, CHR 0x27, CHR ''{'', CHR ''}'']))
                  (\<lambda>m cs. '' '') v)))"

definition escapeAttribute :: "string \<Rightarrow> string" where
  "escapeAttribute v =
     replace_all False (rx_chr CHR ''>'') (\<lambda>m cs. ''&gt;'')
       (replace_all False (rx_chr CHR ''<'') (\<lambda>m cs. ''&lt;'')
         (replace_all False (rx_chr CHR 0x22) (\<lambda>m cs. ''&quot;'')
           (replace_all False (rx_chr CHR ''&'') (\<lambda>m cs. ''&amp;'') v)))"

definition starts_with :: "char \<Rightarrow> string \<Rightarrow> bool" where
  "starts_with c s = (case s of [] \<Rightarrow> False | x # t \<Rightarrow> x = c)"

definition ends_with :: "char \<Rightarrow> string \<Rightarrow> bool" where
  "ends_with c s = (case rev s of [] \<Rightarrow> False | x # t \<Rightarrow> x = c)"

text \<open>\<^verbatim>\<open>s.slice(1, -1)\<close>\<close>

definition slice_inner :: "string \<Rightarrow> string" where
  "slice_inner s = butlast (tl s)"

definition unwrapAttributeValue :: "string \<Rightarrow> string" where
  "unwrapAttributeValue v =
     (let trimmed = trim v in
      if trimmed = [] then []
      else if (starts_with CHR ''{'' trimmed \<and> ends_with CHR ''}'' trimmed)
              \<or> (starts_with CHR ''('' trimmed \<and> ends_with CHR '')'' trimmed)
      then trim (slice_inner trimmed)
      else if (starts_with CHR 0x22 trimmed \<and> ends_with CHR 0x22 trimmed)
              \<or> (starts_with CHR 0x27 trimmed \<and> ends_with CHR 0x27 trimmed)
      then slice_inner trimmed
      else trimmed)"

text \<open>\<^verbatim>\<open>/([a-zA-Z_:][a-zA-Z0-9_:.-]*)\s*=\s*({[^}]*}|"[^"]*"|'[^']*')/g\<close>\<close>

definition name_start :: cset where
  "name_start = CSet False (\<lambda>c. is_lower c \<or> is_upper c \<or> c = CHR ''_'' \<or> c = CHR '':'')"

definition name_char :: cset where
  "name_char = CSet False (\<lambda>c. is_lower c \<or> is_upper c \<or> is_digit c \<or> c = CHR ''_''
                               \<or> c = CHR '':'' \<or> c = CHR ''.'' \<or> c = CHR ''-'')"

definition attr_rx :: rx where
  "attr_rx = seqs [Grp 1 (Seq (One name_start) (rx_star name_char)), rx_star cs_space,
                   rx_chr CHR ''='', rx_star cs_space,
                   Grp 2 (Alt brace_value (Alt dq_value sq_value))]"

text \<open>
  The loop \<^verbatim>\<open>while ((match = regex.exec(source)))\<close> of a \<^verbatim>\<open>g\<close> pattern: the captures of the
  successive matches, each search starting behind the match before it.  \<open>n\<close> counts the
  characters of the current match still to be skipped.  The loop of the source would not
  end on an empty match; the pattern it runs on has none (\<open>attr_match_shorter\<close> below).
\<close>

fun matches_from :: "bool \<Rightarrow> rx \<Rightarrow> nat \<Rightarrow> string \<Rightarrow> caps list" where
  "matches_from ic r n [] =
     (if n = 0 then (case match_here ic r [] of None \<Rightarrow> [] | Some (cs, t) \<Rightarrow> [cs]) else [])"
| "matches_from ic r (Suc n) (c # s) = matches_from ic r n s"
| "matches_from ic r 0 (c # s) =
     (case match_here ic r (c # s) of
        None \<Rightarrow> matches_from ic r 0 s
      | Some (cs, t) \<Rightarrow> cs # matches_from ic r (length (c # s) - length t - 1) s)"

text \<open>A capture that took part in the match, \<^verbatim>\<open>undefined\<close> read as text otherwise.\<close>

definition cap :: "caps \<Rightarrow> nat \<Rightarrow> string" where
  "cap cs i = (case cs i of None \<Rightarrow> ''undefined'' | Some w \<Rightarrow> w)"

text \<open>The key and the raw value of each match, in scan order.\<close>

definition attr_matches :: "string \<Rightarrow> (string \<times> string) list" where
  "attr_matches source = map (\<lambda>cs. (cap cs 1, cap cs 2)) (matches_from False attr_rx 0 source)"

text \<open>
  A \<^verbatim>\<open>Record<string, string>\<close> is an association list in the order in which the keys were
  first set, the order of \<^verbatim>\<open>Object.entries\<close>.  \<^verbatim>\<open>attrs[key] = value\<close> overwrites the value of
  a key that is there and appends a new key; for the key \<^verbatim>\<open>__proto__\<close> it sets no property.
\<close>

type_synonym attrs = "(string \<times> string) list"

definition set_attr :: "attrs \<Rightarrow> string \<times> string \<Rightarrow> attrs" where
  "set_attr al kv =
     (if fst kv = ''__proto__'' then al else AList.update (fst kv) (unwrapAttributeValue (snd kv)) al)"

definition parseAttributes :: "string \<Rightarrow> attrs" where
  "parseAttributes source = foldl set_attr [] (attr_matches source)"

text \<open>
  \<^verbatim>\<open>if (parsed.k) { classes.push(...splitClasses(parsed.k)); delete parsed.k; }\<close>: the test
  holds when the key is there with a value other than the empty string.
\<close>

definition take_class :: "string \<Rightarrow> string list \<times> attrs \<Rightarrow> string list \<times> attrs" where
  "take_class k st =
     (case st of (classes, parsed) \<Rightarrow>
        (case map_of parsed k of
           None \<Rightarrow> (classes, parsed)
         | Some v \<Rightarrow> if v = [] then (classes, parsed)
                     else (classes @ splitClasses v, AList.delete k parsed)))"

definition keep_only :: "string list option \<Rightarrow> attrs \<Rightarrow> attrs" where
  "keep_only keepOnly parsed =
     (case keepOnly of
        None \<Rightarrow> parsed
      | Some ks \<Rightarrow> if ks = [] then parsed else filter (\<lambda>kv. fst kv \<in> set ks) parsed)"

definition dquote :: string where
  "dquote = [CHR 0x22]"

definition buildTagAttributes :: "string \<Rightarrow> string \<Rightarrow> string list \<Rightarrow> string list option \<Rightarrow> string" where
  "buildTagAttributes attrs baseClass stripAttrs keepOnly =
     (let parsed = parseAttributes attrs;
          parsed = foldl (\<lambda>al k. AList.delete k al) parsed stripAttrs;
          parsed = keep_only keepOnly parsed;
          (classes, parsed) = take_class ''class'' (take_class ''className'' ([baseClass], parsed));
          attrPairs = join '' '' (map (\<lambda>kv. fst kv @ ''='' @ dquote @ escapeAttribute (snd kv) @ dquote) parsed)
      in '' class='' @ dquote @ join '' '' (filter nonempty classes) @ dquote
         @ (if attrPairs = [] then [] else '' '' @ attrPairs))"

section \<open>The component rewriter\<close>

text \<open>The attribute text of a tag, \<^verbatim>\<open>attrs ?? ""\<close>.\<close>

definition cap_or_empty :: "caps \<Rightarrow> nat \<Rightarrow> string" where
  "cap_or_empty cs i = (case cs i of None \<Rightarrow> [] | Some w \<Rightarrow> w)"

text \<open>\<^verbatim>\<open>new RegExp(`<${componentName}([^>]*)>`, "g")\<close> and \<^verbatim>\<open>new RegExp(`</${componentName}>`, "g")\<close>\<close>

definition openingTagRegex :: "string \<Rightarrow> rx" where
  "openingTagRegex componentName =
     seqs [lit (''<'' @ componentName), Grp 1 (rx_star (none_of ''>'')), rx_chr CHR ''>'']"

definition closingTagRegex :: "string \<Rightarrow> rx" where
  "closingTagRegex componentName = lit (''</'' @ componentName @ ''>'')"

definition replaceComponent :: "string \<Rightarrow> string \<Rightarrow> string \<Rightarrow> string \<Rightarrow> string list \<Rightarrow> string" where
  "replaceComponent source componentName tagName baseClass stripAttrs =
     replace_all False (closingTagRegex componentName) (\<lambda>m cs. ''</'' @ tagName @ ''>'')
       (replace_all False (openingTagRegex componentName)
          (\<lambda>m cs. ''<'' @ tagName @ buildTagAttributes (cap_or_empty cs 1) baseClass stripAttrs None @ ''>'')
          source)"

text \<open>\<^verbatim>\<open>new RegExp(`<${componentName}([^>]*)/>`, "g")\<close>\<close>

definition selfClosingRegex :: "string \<Rightarrow> rx" where
  "selfClosingRegex componentName =
     seqs [lit (''<'' @ componentName), Grp 1 (rx_star (none_of ''>'')), lit ''/>'']"

definition replaceSelfClosing :: "string \<Rightarrow> string \<Rightarrow> string \<Rightarrow> string \<Rightarrow> string list \<Rightarrow> string" where
  "replaceSelfClosing source componentName tagName baseClass keepAttrs =
     replace_all False (selfClosingRegex componentName)
       (\<lambda>m cs. ''<'' @ tagName @ buildTagAttributes (cap_or_empty cs 1) baseClass [] (Some keepAttrs)
                @ ''></'' @ tagName @ ''>'')
       source"

text \<open>
  The rules of \<^verbatim>\<open>convertCustomComponents\<close> in the order of the source: the component, the
  tag, the base class and the attributes to strip.
\<close>

definition component_rules :: "(string \<times> string \<times> string \<times> string list) list" where
  "component_rules =
     [(''Button'', ''button'', ''arena-btn'', [''variant'', ''size'', ''asChild'']),
      (''Badge'', ''span'', ''arena-badge'', []),
      (''Card'', ''div'', ''arena-card'', []),
      (''CardHeader'', ''div'', ''arena-card__header'', []),
      (''CardContent'', ''div'', ''arena-card__content'', []),
      (''CardTitle'', ''h3'', ''arena-card__title'', []),
      (''CardDescription'', ''p'', ''arena-card__description'', []),
      (''CardFooter'', ''div'', ''arena-card__footer'', []),
      (''Tabs'', ''div'', ''arena-tabs'', []),
      (''TabsList'', ''div'', ''arena-tabs__list'', []),
      (''TabsTrigger'', ''button'', ''arena-tabs__trigger'', [''value'']),
      (''TabsContent'', ''div'', ''arena-tabs__content'', [''value'']),
      (''Link'', ''a'', ''arena-link'', [''prefetch'', ''legacyBehavior'']),
      (''Input'', ''input'', ''arena-input'', [''type'']),
      (''Label'', ''label'', ''arena-label'', []),
      (''Textarea'', ''textarea'', ''arena-textarea'', []),
      (''Avatar'', ''div'', ''arena-avatar'', []),
      (''AvatarImage'', ''div'', ''arena-avatar__image'', [''src'', ''alt'']),
      (''AvatarFallback'', ''span'', ''arena-avatar__fallback'', [])]"

definition apply_rule :: "string \<Rightarrow> string \<times> string \<times> string \<times> string list \<Rightarrow> string" where
  "apply_rule output rule =
     (case rule of (componentName, tagName, baseClass, stripAttrs) \<Rightarrow>
        replaceComponent output componentName tagName baseClass stripAttrs)"

definition convertCustomComponents :: "string \<Rightarrow> string" where
  "convertCustomComponents source =
     replaceSelfClosing (foldl apply_rule source component_rules)
       ''Image'' ''div'' ''arena-image'' [''src'', ''alt'', ''width'', ''height'']"

section \<open>The earlier stages\<close>

definition braced :: "rx list \<Rightarrow> rx" where
  "braced rs = seqs ([rx_chr CHR ''{'', rx_star cs_space] @ rs @ [rx_star cs_space, rx_chr CHR ''}''])"

text \<open>\<^verbatim>\<open>q([^q]+)q\<close> for a quote character \<open>q\<close>, the text in capture 1.\<close>

definition quoted :: "char \<Rightarrow> rx list" where
  "quoted q = [rx_chr q, Grp 1 (rx_plus (none_of [q])), rx_chr q]"

definition backtick :: char where
  "backtick = CHR 0x60"

definition stripJsxArtifacts :: "string \<Rightarrow> string" where
  "stripJsxArtifacts source =
     replace_all False (lit ''</>'') (\<lambda>m cs. ''</div>'')
       (replace_all False (lit ''<>'') (\<lambda>m cs. ''<div class='' @ dquote @ ''arena-fragment'' @ dquote @ ''>'')
         (replace_all False (braced (quoted CHR 0x27)) (\<lambda>m cs. cap cs 1)
           (replace_all False (braced (quoted CHR 0x22)) (\<lambda>m cs. cap cs 1)
             (replace_all False (braced (quoted backtick)) (\<lambda>m cs. cap cs 1)
               (replace_all False (braced [One (one_of [CHR 0x22, CHR 0x27, backtick])]) (\<lambda>m cs. '' '')
                 (replace_all False (braced [lit ''/*'', rx_lazy any_char, lit ''*/'']) (\<lambda>m cs. [])
                    source))))))"

text \<open>
  \<^verbatim>\<open>expr.split(/[\s+|]+/).map((token) => token.replace(/["'`]/g, "").trim()).filter(Boolean).join(" ")\<close>
\<close>

definition flatten_class_expr :: "string \<Rightarrow> string" where
  "flatten_class_expr expr =
     join '' ''
       (filter nonempty
         (map (\<lambda>token. trim (replace_all False (One (one_of [CHR 0x22, CHR 0x27, backtick]))
                                 (\<lambda>m cs. []) token))
           (split_runs (\<lambda>c. is_space c \<or> c = CHR ''+'' \<or> c = CHR ''|'') expr)))"

definition class_attr :: "string \<Rightarrow> string" where
  "class_attr v = ''class='' @ dquote @ v @ dquote"

definition class_braced :: "rx list \<Rightarrow> rx" where
  "class_braced rs = Seq (lit ''class='') (braced rs)"

definition convertClassBindings :: "string \<Rightarrow> string" where
  "convertClassBindings source =
     replace_all False (class_braced [Grp 1 (rx_plus (none_of ''}''))])
         (\<lambda>m cs. class_attr (flatten_class_expr (cap cs 1)))
       (replace_all False (class_braced (quoted CHR 0x27)) (\<lambda>m cs. class_attr (cap cs 1))
         (replace_all False (class_braced (quoted CHR 0x22)) (\<lambda>m cs. class_attr (cap cs 1))
           (replace_all False (class_braced (quoted backtick)) (\<lambda>m cs. class_attr (cap cs 1))
             (replace_all False (lit ''className='') (\<lambda>m cs. ''class='') source))))"

section \<open>The primary section extractor\<close>

text \<open>\<^verbatim>\<open>/<section[^>]*id=(["'])hero\1[\s\S]*?<\/section>/i\<close>\<close>

definition HERO_SECTION_REGEX :: rx where
  "HERO_SECTION_REGEX =
     seqs [lit ''<section'', rx_star (none_of ''>''), lit ''id='',
           Grp 1 (One (one_of [CHR 0x22, CHR 0x27])), lit ''hero'', Back 1,
           rx_lazy any_char, lit ''</section>'']"

text \<open>\<^verbatim>\<open>/<main[\s\S]*?<\/main>/i\<close>\<close>

definition MAIN_SECTION_REGEX :: rx where
  "MAIN_SECTION_REGEX = seqs [lit ''<main'', rx_lazy any_char, lit ''</main>'']"

record ExtractionResult =
  sanitizedHtml :: string
  rawSection :: string

definition normalizeSection :: "string \<Rightarrow> string" where
  "normalizeSection section =
     (if section = [] then []
      else sanitizeMarkup (convertCustomComponents (convertClassBindings (stripJsxArtifacts section))))"

text \<open>
  \<^verbatim>\<open>if (mainMatch?.[0]) return mainMatch[0]; return source.trim() || null;\<close>, with \<open>None\<close> for
  \<^verbatim>\<open>null\<close>.
\<close>

definition extractFallbackSection :: "string \<Rightarrow> string option" where
  "extractFallbackSection source =
     (case exec True MAIN_SECTION_REGEX source of
        Some (i, m, cs) \<Rightarrow> if m \<noteq> [] then Some m
                        else (if trim source = [] then None else Some (trim source))
      | None \<Rightarrow> if trim source = [] then None else Some (trim source))"

text \<open>\<^verbatim>\<open>heroMatch?.[0] ?? extractFallbackSection(responseText) ?? responseText\<close>\<close>

definition extractPrimarySection :: "string \<Rightarrow> ExtractionResult" where
  "extractPrimarySection responseText =
     (let rawSection =
            (case exec True HERO_SECTION_REGEX responseText of
               Some (i, m, cs) \<Rightarrow> m
             | None \<Rightarrow> (case extractFallbackSection responseText of
                          Some t \<Rightarrow> t
                        | None \<Rightarrow> responseText));
          normalized = normalizeSection rawSection
      in \<lparr>sanitizedHtml = normalized, rawSection = rawSection\<rparr>)"


section \<open>The pattern objects of the module\<close>

text \<open>
  \<^verbatim>\<open>HERO_SECTION_REGEX\<close> and \<^verbatim>\<open>MAIN_SECTION_REGEX\<close> are objects of the module that every call
  shares.  A pattern object carries its pattern, its flags and the mutable \<^verbatim>\<open>lastIndex\<close>;
  \<^verbatim>\<open>exec\<close> reads and writes \<^verbatim>\<open>lastIndex\<close> when the \<^verbatim>\<open>g\<close> flag is set and leaves it alone
  otherwise.  (No pattern of the program has the \<^verbatim>\<open>y\<close> flag.)  The patterns written inside
  the functions are new objects at every call and never outlive it.
\<close>

record regexp =
  pattern :: rx
  ignoreCase :: bool
  global :: bool
  lastIndex :: nat

definition regexp_exec :: "regexp \<Rightarrow> string \<Rightarrow> (nat \<times> string \<times> caps) option \<times> regexp" where
  "regexp_exec R S =
     (let start = (if global R then lastIndex R else 0) in
      if length S < start then (None, if global R then R\<lparr>lastIndex := 0\<rparr> else R)
      else (case exec (ignoreCase R) (pattern R) (drop start S) of
              None \<Rightarrow> (None, if global R then R\<lparr>lastIndex := 0\<rparr> else R)
            | Some (i, m, cs) \<Rightarrow>
                (Some (start + i, m, cs),
                 if global R then R\<lparr>lastIndex := start + i + length m\<rparr> else R)))"

text \<open>The state of the module: the \<^verbatim>\<open>lastIndex\<close> of its two pattern objects.\<close>

record module_state =
  hero_lastIndex :: nat
  main_lastIndex :: nat

definition hero_object :: "module_state \<Rightarrow> regexp" where
  "hero_object \<sigma> = \<lparr>pattern = HERO_SECTION_REGEX, ignoreCase = True, global = False,
                     lastIndex = hero_lastIndex \<sigma>\<rparr>"

definition main_object :: "module_state \<Rightarrow> regexp" where
  "main_object \<sigma> = \<lparr>pattern = MAIN_SECTION_REGEX, ignoreCase = True, global = False,
                     lastIndex = main_lastIndex \<sigma>\<rparr>"

definition extractFallbackSection_run :: "module_state \<Rightarrow> string \<Rightarrow> string option \<times> module_state" where
  "extractFallbackSection_run \<sigma> source =
     (case regexp_exec (main_object \<sigma>) source of
        (mainMatch, R) \<Rightarrow>
          (let \<sigma>' = \<sigma>\<lparr>main_lastIndex := lastIndex R\<rparr>;
               trimmed = (if trim source = [] then None else Some (trim source))
           in (case mainMatch of
                 Some (i, m, cs) \<Rightarrow> if m \<noteq> [] then (Some m, \<sigma>') else (trimmed, \<sigma>')
               | None \<Rightarrow> (trimmed, \<sigma>'))))"

definition extractPrimarySection_run :: "module_state \<Rightarrow> string \<Rightarrow> ExtractionResult \<times> module_state" where
  "extractPrimarySection_run \<sigma> responseText =
     (case regexp_exec (hero_object \<sigma>) responseText of
        (heroMatch, R) \<Rightarrow>
          (let \<sigma>1 = \<sigma>\<lparr>hero_lastIndex := lastIndex R\<rparr>;
               (rawSection, \<sigma>2) =
                  (case heroMatch of
                     Some (i, m, cs) \<Rightarrow> (m, \<sigma>1)
                   | None \<Rightarrow> (case extractFallbackSection_run \<sigma>1 responseText of
                                (Some t, \<sigma>') \<Rightarrow> (t, \<sigma>')
                              | (None, \<sigma>') \<Rightarrow> (responseText, \<sigma>')));
               normalized = normalizeSection rawSection
           in (\<lparr>sanitizedHtml = normalized, rawSection = rawSection\<rparr>, \<sigma>2)))"

section \<open>Notions used in the properties\<close>

text \<open>The text \<open>s\<close> starts with the literal \<open>w\<close>, compared as the pattern \<open>lit w\<close> compares.\<close>

fun lit_prefix :: "bool \<Rightarrow> string \<Rightarrow> string \<Rightarrow> bool" where
  "lit_prefix ic [] s = True"
| "lit_prefix ic (a # w) [] = False"
| "lit_prefix ic (a # w) (c # s) = (cset_ok ic (CSet False (\<lambda>x. x = a)) c \<and> lit_prefix ic w s)"

text \<open>The literal \<open>w\<close> occurs somewhere in \<open>s\<close>; without regard to letter case when \<open>ic\<close> holds.\<close>

fun occurs :: "bool \<Rightarrow> string \<Rightarrow> string \<Rightarrow> bool" where
  "occurs ic w [] = lit_prefix ic w []"
| "occurs ic w (c # s) = (lit_prefix ic w (c # s) \<or> occurs ic w s)"

definition all_space :: "string \<Rightarrow> bool" where
  "all_space s = list_all is_space s"

text \<open>The seven patterns of \<^verbatim>\<open>sanitizeMarkup\<close>, and a text in which none of them has a match.\<close>

definition sanitizer_patterns :: "rx list" where
  "sanitizer_patterns =
     [script_rx, handler_rx dq_value, handler_rx sq_value, handler_rx brace_value,
      style_rx brace_value, style_rx dq_value, style_rx sq_value]"

definition unmatched :: "string \<Rightarrow> bool" where
  "unmatched x = list_all (\<lambda>r. find_match True r x = None) sanitizer_patterns"


text \<open>
  A text contains an event-handler attribute when the pattern \<^verbatim>\<open>/on[a-z]+=/i\<close> has a match
  in it.
\<close>

definition handler_name_rx :: rx where
  "handler_name_rx = seqs [lit ''on'', rx_plus lower_az, rx_chr CHR ''='']"

definition has_handler :: "string \<Rightarrow> bool" where
  "has_handler t = (find_match True handler_name_rx t \<noteq> None)"

text \<open>The ASCII letters, the characters that \<^verbatim>\<open>[a-z]\<close> matches under the \<^verbatim>\<open>i\<close> flag.\<close>

definition is_letter :: "char \<Rightarrow> bool" where
  "is_letter c = (is_lower c \<or> is_upper c)"

text \<open>The value forms of the sanitizer, by their delimiters: \<^verbatim>\<open>q[^q']*q'\<close>.\<close>

definition value_rx :: "char \<Rightarrow> char \<Rightarrow> rx" where
  "value_rx q q' = seqs [rx_chr q, rx_star (none_of [q']), rx_chr q']"

text \<open>
  An event-handler attribute as text: a white-space character, \<^verbatim>\<open>on\<close> in any letter case,
  a name of letters, \<^verbatim>\<open>=\<close> with white space around it, and a value between the delimiters
  \<open>q\<close> and \<open>q'\<close>.
\<close>

definition handler_text ::
  "char \<Rightarrow> string \<Rightarrow> string \<Rightarrow> string \<Rightarrow> string \<Rightarrow> char \<Rightarrow> string \<Rightarrow> char \<Rightarrow> string" where
  "handler_text w kw name sp1 sp2 q v q' = w # kw @ name @ sp1 @ CHR ''='' # sp2 @ q # v @ [q']"

text \<open>
  The attribute is in one of the three value forms (double-quoted, single-quoted or in
  braces), and its value contains neither the closing delimiter nor \<^verbatim>\<open>=\<close>.
\<close>

definition handler_ok ::
  "char \<Rightarrow> string \<Rightarrow> string \<Rightarrow> string \<Rightarrow> string \<Rightarrow> char \<Rightarrow> string \<Rightarrow> char \<Rightarrow> bool" where
  "handler_ok w kw name sp1 sp2 q v q' =
     (is_space w \<and> map to_lower kw = ''on'' \<and> name \<noteq> [] \<and> list_all is_letter name
      \<and> all_space sp1 \<and> all_space sp2
      \<and> ((q = CHR 0x22 \<and> q' = CHR 0x22) \<or> (q = CHR 0x27 \<and> q' = CHR 0x27)
          \<or> (q = CHR ''{'' \<and> q' = CHR ''}''))
      \<and> q' \<notin> set v \<and> CHR ''='' \<notin> set v)"



section \<open>Facts about the matcher\<close>

declare lit.simps [simp del]
declare cset_ok.simps [simp del]

lemma rx_match_lit:
  "rx_match ic (lit w) k cs s = (if lit_prefix ic w s then k cs (drop (length w) s) else None)"
proof (induction w arbitrary: s)
  case Nil
  show ?case by (simp add: lit.simps)
next
  case (Cons a w)
  show ?case
  proof (cases s)
    case Nil
    then show ?thesis by (simp add: rx_chr_def lit.simps)
  next
    case (Cons c t)
    with Cons.IH [of t] show ?thesis by (simp add: rx_chr_def lit.simps)
  qed
qed

lemma replace_from_no_match:
  assumes "\<And>t. suffix t s \<Longrightarrow> match_here ic r t = None"
  shows "replace_from ic r f 0 s = s"
  using assms
proof (induction s)
  case Nil
  from Nil [of "[]"] show ?case by simp
next
  case (Cons c s)
  have "match_here ic r (c # s) = None" by (rule Cons.prems) simp
  moreover have "replace_from ic r f 0 s = s"
    by (rule Cons.IH) (simp add: Cons.prems suffix_ConsI)
  ultimately show ?case by simp
qed

lemma exec_no_match:
  assumes "\<And>t. suffix t s \<Longrightarrow> match_here ic r t = None"
  shows "exec ic r s = None"
  using assms
proof (induction s)
  case Nil
  from Nil [of "[]"] show ?case by simp
next
  case (Cons c s)
  have "match_here ic r (c # s) = None" by (rule Cons.prems) simp
  moreover have "exec ic r s = None"
    by (rule Cons.IH) (simp add: Cons.prems suffix_ConsI)
  ultimately show ?case by simp
qed

lemma not_occurs_suffix: "\<not> occurs ic w s \<Longrightarrow> suffix t s \<Longrightarrow> \<not> lit_prefix ic w t"
  by (induction s) (auto simp: suffix_Cons)

lemma match_here_lit_absent:
  "\<not> occurs ic w s \<Longrightarrow> suffix t s \<Longrightarrow> match_here ic (lit w) t = None"
  by (simp add: match_here_def rx_match_lit not_occurs_suffix)

lemma match_here_lit_seq_absent:
  "\<not> occurs ic w s \<Longrightarrow> suffix t s \<Longrightarrow> match_here ic (Seq (lit w) r) t = None"
  by (simp add: match_here_def rx_match_lit not_occurs_suffix)

lemma match_here_first_absent:
  assumes "\<not> list_ex (cset_ok ic a) s" and "suffix t s"
  shows "match_here ic (Seq (One a) r) t = None"
proof -
  from assms(2) have "set t \<subseteq> set s" by (rule set_mono_suffix)
  with assms(1) have "t = [] \<or> \<not> cset_ok ic a (hd t)"
    by (cases t) (auto simp: list_ex_iff)
  then show ?thesis
    by (cases t) (auto simp: match_here_def)
qed

lemma replace_all_lit_absent:
  "\<not> occurs ic w s \<Longrightarrow> replace_all ic (lit w) f s = s"
  unfolding replace_all_def by (rule replace_from_no_match) (rule match_here_lit_absent)

lemma replace_all_lit_seq_absent:
  "\<not> occurs ic w s \<Longrightarrow> replace_all ic (Seq (lit w) r) f s = s"
  unfolding replace_all_def by (rule replace_from_no_match) (rule match_here_lit_seq_absent)

lemma replace_all_first_absent:
  "\<not> list_ex (cset_ok ic a) s \<Longrightarrow> replace_all ic (Seq (One a) r) f s = s"
  unfolding replace_all_def by (rule replace_from_no_match) (rule match_here_first_absent)

section \<open>White space\<close>

lemma space_not_letter: "is_space c \<Longrightarrow> c \<notin> set lower_letters \<and> c \<notin> set upper_letters"
  by (auto simp: is_space_def lower_letters_def upper_letters_def)

lemma map_of_zip_None: "c \<notin> set xs \<Longrightarrow> map_of (zip xs ys) c = None"
  by (auto simp: map_of_eq_None_iff dest: set_zip_leftD)

lemma to_upper_id: "c \<notin> set lower_letters \<Longrightarrow> to_upper c = c"
  by (simp add: to_upper_def map_of_zip_None)

lemma to_lower_id: "c \<notin> set upper_letters \<Longrightarrow> to_lower c = c"
  by (simp add: to_lower_def map_of_zip_None)

lemma chr_space: "is_space c \<Longrightarrow> \<not> is_space a \<Longrightarrow> \<not> cset_ok ic (CSet False (\<lambda>x. x = a)) c"
  using space_not_letter [of c] by (auto simp: to_upper_id to_lower_id cset_ok.simps)

lemma lit_prefix_space: "all_space s \<Longrightarrow> \<not> is_space a \<Longrightarrow> \<not> lit_prefix ic (a # w) s"
  by (cases s) (auto simp: all_space_def chr_space)

lemma occurs_space: "all_space s \<Longrightarrow> \<not> is_space a \<Longrightarrow> \<not> occurs ic (a # w) s"
proof (induction s)
  case Nil
  then show ?case by simp
next
  case (Cons c s)
  from Cons.prems have "all_space s" by (simp add: all_space_def)
  with Cons show ?case by (simp add: lit_prefix_space del: lit_prefix.simps)
qed

lemma first_space: "all_space s \<Longrightarrow> \<not> is_space a \<Longrightarrow> \<not> list_ex (cset_ok ic (CSet False (\<lambda>x. x = a))) s"
  by (auto simp: all_space_def list_ex_iff list_all_iff chr_space)

lemma all_space_suffix: "all_space s \<Longrightarrow> suffix t s \<Longrightarrow> all_space t"
  by (auto simp: all_space_def list_all_iff dest: set_mono_suffix)

lemma handler_space:
  assumes "all_space s" and "suffix t s"
  shows "match_here True (handler_rx v) t = None"
proof (cases t)
  case Nil
  then show ?thesis by (simp add: match_here_def handler_rx_def)
next
  case (Cons c u)
  from assms have "all_space t" by (rule all_space_suffix)
  with Cons have "all_space u" by (simp add: all_space_def)
  then have "\<not> lit_prefix True ''on'' u"
    by (rule lit_prefix_space) (simp add: is_space_def)
  with Cons show ?thesis
    by (simp add: match_here_def handler_rx_def rx_match_lit del: lit_prefix.simps)
qed

lemma remove_handler_space: "all_space s \<Longrightarrow> remove_all (handler_rx v) s = s"
  unfolding remove_all_def replace_all_def
  by (rule replace_from_no_match) (rule handler_space)

lemma sanitizeMarkup_space:
  assumes "all_space s"
  shows "sanitizeMarkup s = s"
proof -
  have 1: "remove_all script_rx s = s"
    unfolding remove_all_def script_rx_def seqs.simps
    by (rule replace_all_lit_seq_absent) (simp add: occurs_space [OF assms] is_space_def)
  have 2: "remove_all (style_rx v) s = s" for v
    unfolding remove_all_def style_rx_def
    by (rule replace_all_lit_seq_absent) (simp add: occurs_space [OF assms] is_space_def)
  show ?thesis
    by (simp add: sanitizeMarkup_def 1 2 remove_handler_space [OF assms])
qed


section \<open>What is left after a match\<close>

lemma many_greedy_suffix:
  "many_greedy ok k s = Some y \<Longrightarrow> \<exists>t. suffix t s \<and> k t = Some y"
proof (induction s)
  case Nil
  then show ?case by auto
next
  case (Cons c s)
  show ?case
  proof (cases "ok c \<and> many_greedy ok k s \<noteq> None")
    case True
    with Cons.prems have "many_greedy ok k s = Some y" by auto
    from Cons.IH [OF this] show ?thesis by (auto intro: suffix_ConsI)
  next
    case False
    with Cons.prems have "k (c # s) = Some y" by (auto split: if_splits option.splits)
    then show ?thesis by auto
  qed
qed

lemma many_lazy_suffix:
  "many_lazy ok k s = Some y \<Longrightarrow> \<exists>t. suffix t s \<and> k t = Some y"
proof (induction s)
  case Nil
  then show ?case by auto
next
  case (Cons c s)
  show ?case
  proof (cases "k (c # s)")
    case None
    with Cons.prems have "many_lazy ok k s = Some y" by (auto split: if_splits)
    from Cons.IH [OF this] show ?thesis by (auto intro: suffix_ConsI)
  next
    case (Some z)
    with Cons.prems have "k (c # s) = Some y" by simp
    then show ?thesis by auto
  qed
qed

lemma rx_match_suffix:
  "rx_match ic r k cs s = Some y \<Longrightarrow> \<exists>cs' t. suffix t s \<and> k cs' t = Some y"
proof (induction r arbitrary: k cs s)
  case Eps
  then show ?case by auto
next
  case (One a)
  then show ?case by (cases s) (auto split: if_splits intro: suffix_ConsI)
next
  case (Many g a)
  show ?case
  proof (cases g)
    case True
    with Many have "many_greedy (cset_ok ic a) (k cs) s = Some y" by simp
    from many_greedy_suffix [OF this] show ?thesis by blast
  next
    case False
    with Many have "many_lazy (cset_ok ic a) (k cs) s = Some y" by simp
    from many_lazy_suffix [OF this] show ?thesis by blast
  qed
next
  case (Seq r1 r2)
  from Seq.prems have "rx_match ic r1 (rx_match ic r2 k) cs s = Some y" by simp
  from Seq.IH(1) [OF this] obtain cs1 t1
    where 1: "suffix t1 s" "rx_match ic r2 k cs1 t1 = Some y" by blast
  from Seq.IH(2) [OF 1(2)] obtain cs2 t2
    where 2: "suffix t2 t1" "k cs2 t2 = Some y" by blast
  from 1(1) 2(1) have "suffix t2 s" by (rule suffix_order.trans [rotated])
  with 2(2) show ?case by blast
next
  case (Alt r1 r2)
  show ?case
  proof (cases "rx_match ic r1 k cs s")
    case None
    with Alt.prems have "rx_match ic r2 k cs s = Some y" by simp
    from Alt.IH(2) [OF this] show ?thesis .
  next
    case (Some z)
    with Alt.prems have "rx_match ic r1 k cs s = Some y" by simp
    from Alt.IH(1) [OF this] show ?thesis .
  qed
next
  case (Grp i r)
  from Grp.prems
  have "rx_match ic r (\<lambda>cs' t. k (cs'(i \<mapsto> take (length s - length t) s)) t) cs s = Some y"
    by simp
  from Grp.IH [OF this] show ?case by blast
next
  case (Back i)
  then show ?case
    by (auto split: option.splits if_splits intro: suffix_drop)
qed

lemma match_here_suffix: "match_here ic r s = Some (cs, t) \<Longrightarrow> suffix t s"
  unfolding match_here_def by (drule rx_match_suffix) auto





section \<open>The attribute map\<close>

lemma foldl_set_attr_lookup:
  assumes "k \<noteq> ''__proto__''"
  shows "map_of (foldl set_attr al ms) k =
         (if filter (\<lambda>kv. fst kv = k) ms = [] then map_of al k
          else Some (unwrapAttributeValue (snd (last (filter (\<lambda>kv. fst kv = k) ms)))))"
proof (induction ms rule: rev_induct)
  case Nil
  show ?case by simp
next
  case (snoc m ms)
  show ?case
  proof (cases "fst m = k")
    case True
    with assms show ?thesis
      by (simp add: set_attr_def update_conv')
  next
    case False
    with snoc show ?thesis
      by (simp add: set_attr_def update_conv')
  qed
qed

section \<open>Blank text\<close>

lemma trim_space: "all_space s \<Longrightarrow> trim s = []"
  by (auto simp: trim_def all_space_def list_all_iff dest: set_dropWhileD)

lemma exec_lit_seq_space:
  "all_space s \<Longrightarrow> \<not> is_space a \<Longrightarrow> exec ic (Seq (lit (a # w)) r) s = None"
  by (rule exec_no_match) (rule match_here_lit_seq_absent [OF occurs_space])

lemma replace_lit_seq_space:
  "all_space s \<Longrightarrow> \<not> is_space a \<Longrightarrow> replace_all ic (Seq (lit (a # w)) r) f s = s"
  by (rule replace_all_lit_seq_absent [OF occurs_space])

lemma replace_lit_space:
  "all_space s \<Longrightarrow> \<not> is_space a \<Longrightarrow> replace_all ic (lit (a # w)) f s = s"
  by (rule replace_all_lit_absent [OF occurs_space])

lemma replace_first_space:
  "all_space s \<Longrightarrow> \<not> is_space a \<Longrightarrow> replace_all ic (Seq (rx_chr a) r) f s = s"
  unfolding rx_chr_def by (rule replace_all_first_absent [OF first_space])

lemma stripJsxArtifacts_space:
  assumes "all_space s"
  shows "stripJsxArtifacts s = s"
  by (simp add: stripJsxArtifacts_def braced_def replace_first_space [OF assms]
      replace_lit_space [OF assms] is_space_def)

lemma convertClassBindings_space:
  assumes "all_space s"
  shows "convertClassBindings s = s"
  by (simp add: convertClassBindings_def class_braced_def replace_lit_seq_space [OF assms]
      replace_lit_space [OF assms] is_space_def)

lemma replaceComponent_space:
  assumes "all_space s"
  shows "replaceComponent s componentName tagName baseClass stripAttrs = s"
  by (simp add: replaceComponent_def openingTagRegex_def closingTagRegex_def
      replace_lit_seq_space [OF assms] replace_lit_space [OF assms] is_space_def)

lemma foldl_fixed: "(\<And>x. f s x = s) \<Longrightarrow> foldl f s xs = s"
  by (induction xs) simp_all

lemma convertCustomComponents_space:
  assumes "all_space s"
  shows "convertCustomComponents s = s"
proof -
  have "apply_rule s rule = s" for rule
    by (cases rule) (simp add: apply_rule_def replaceComponent_space [OF assms])
  then have "foldl apply_rule s component_rules = s" by (rule foldl_fixed)
  then show ?thesis
    by (simp add: convertCustomComponents_def replaceSelfClosing_def selfClosingRegex_def
        replace_lit_seq_space [OF assms] is_space_def)
qed

lemma normalizeSection_space: "all_space s \<Longrightarrow> normalizeSection s = s"
  by (simp add: normalizeSection_def stripJsxArtifacts_space convertClassBindings_space
      convertCustomComponents_space sanitizeMarkup_space)

section \<open>The choice of the section\<close>


lemma find_match_None: "find_match ic r s = None \<longleftrightarrow> exec ic r s = None"
  by (simp add: find_match_def)




section \<open>Text without a match\<close>

lemma exec_None_suffix:
  "exec ic r s = None \<Longrightarrow> suffix t s \<Longrightarrow> match_here ic r t = None"
proof (induction s)
  case Nil
  then show ?case by (auto split: option.splits)
next
  case (Cons c s)
  from Cons.prems(1) have 1: "match_here ic r (c # s) = None" and 2: "exec ic r s = None"
    by (auto split: option.splits)
  from Cons.prems(2) have "t = c # s \<or> suffix t s" by (auto simp: suffix_Cons)
  with 1 2 Cons.IH show ?case by auto
qed

lemma remove_all_unmatched: "find_match True r x = None \<Longrightarrow> remove_all r x = x"
  unfolding remove_all_def replace_all_def find_match_None
  by (rule replace_from_no_match) (rule exec_None_suffix)

lemma sanitizeMarkup_unmatched: "unmatched x \<Longrightarrow> sanitizeMarkup x = x"
  by (simp add: unmatched_def sanitizer_patterns_def sanitizeMarkup_def remove_all_unmatched)

section \<open>Scanning past text without a match\<close>

lemma replace_from_skip: "replace_from ic r f (length u) (u @ t) = replace_from ic r f 0 t"
  by (induction u) simp_all

lemma replace_from_prefix:
  assumes "\<And>u v. a = u @ v \<Longrightarrow> v \<noteq> [] \<Longrightarrow> match_here ic r (v @ t) = None"
  shows "replace_from ic r f 0 (a @ t) = a @ replace_from ic r f 0 t"
  using assms
proof (induction a)
  case Nil
  show ?case by simp
next
  case (Cons c a)
  have "match_here ic r ((c # a) @ t) = None" by (rule Cons.prems [of "[]"]) simp_all
  moreover have "replace_from ic r f 0 (a @ t) = a @ replace_from ic r f 0 t"
  proof (rule Cons.IH)
    fix u v assume "a = u @ v" "v \<noteq> []"
    then show "match_here ic r (v @ t) = None" using Cons.prems [of "c # u" v] by simp
  qed
  ultimately show ?case by simp
qed

lemma replace_from_match:
  assumes "match_here ic r (m @ t) = Some (cs, t)" and "m \<noteq> []"
  shows "replace_from ic r f 0 (m @ t) = f m cs @ replace_from ic r f 0 t"
proof -
  from assms(2) obtain c u where m: "m = c # u" by (cases m) auto
  with assms(1) have "replace_from ic r f 0 (m @ t) = f m cs @ replace_from ic r f (length u) (u @ t)"
    by (simp add: Let_def)
  then show ?thesis by (simp add: replace_from_skip)
qed

lemma replace_from_remove_keeps:
  "list_all P s \<Longrightarrow> list_all P (replace_from ic r (\<lambda>m cs. []) n s)"
proof (induction s arbitrary: n)
  case Nil
  then show ?case by (simp split: option.splits if_splits)
next
  case (Cons c s)
  show ?case
  proof (cases n)
    case 0
    with Cons.prems Cons.IH show ?thesis
      by (auto simp: Let_def split: option.splits if_splits)
  next
    case (Suc k)
    with Cons.prems Cons.IH show ?thesis by auto
  qed
qed

lemma remove_all_keeps: "list_all P s \<Longrightarrow> list_all P (remove_all r s)"
  unfolding remove_all_def replace_all_def by (rule replace_from_remove_keeps)

lemma sanitizeMarkup_keeps:
  "list_all P (remove_all script_rx s) \<Longrightarrow> list_all P (sanitizeMarkup s)"
  by (simp add: sanitizeMarkup_def remove_all_keeps)

section \<open>Characters and letter case\<close>

lemma map_of_zip_range: "map_of (zip xs ys) c = Some u \<Longrightarrow> u \<in> set ys"
  by (auto dest: map_of_SomeD set_zip_rightD)

lemma to_upper_cases: "to_upper c = c \<or> to_upper c \<in> set upper_letters"
  by (auto simp: to_upper_def split: option.splits dest: map_of_zip_range)

lemma to_lower_cases: "to_lower c = c \<or> to_lower c \<in> set lower_letters"
  by (auto simp: to_lower_def split: option.splits dest: map_of_zip_range)

lemma chr_exact:
  assumes "a \<notin> set lower_letters" and "a \<notin> set upper_letters"
  shows "cset_ok ic (CSet False (\<lambda>x. x = a)) c = (c = a)"
  using assms to_upper_cases [of c] to_lower_cases [of c] by (auto simp: cset_ok.simps)

lemma chr_lower: "cset_ok True (CSet False (\<lambda>x. x = to_lower c)) c"
  by (simp add: cset_ok.simps)

lemma lit_prefix_lower: "map to_lower u = w \<Longrightarrow> lit_prefix True w (u @ t)"
  by (induction u arbitrary: w) (auto simp: chr_lower)

lemma lit_prefix_append: "length w \<le> length x \<Longrightarrow> lit_prefix ic w (x @ y) = lit_prefix ic w x"
  by (induction ic w x rule: lit_prefix.induct) auto

lemma lit_prefix_absent_head:
  assumes "a \<notin> set lower_letters" and "a \<notin> set upper_letters" and "a \<notin> set s"
  shows "\<not> lit_prefix ic (a # w) (s @ t) \<or> s = []"
  using assms by (cases s) (auto simp: chr_exact)

lemma occurs_absent_head:
  assumes "a \<notin> set lower_letters" and "a \<notin> set upper_letters" and "a \<notin> set s"
  shows "\<not> occurs ic (a # w) s"
  using assms by (induction s) (auto simp: chr_exact)

section \<open>The lazy and the greedy star on known text\<close>

lemma many_lazy_skip:
  assumes "list_all ok b"
    and "\<And>u v. b = u @ v \<Longrightarrow> v \<noteq> [] \<Longrightarrow> k (v @ t) = None"
  shows "many_lazy ok k (b @ t) = many_lazy ok k t"
  using assms
proof (induction b)
  case Nil
  show ?case by simp
next
  case (Cons c b)
  have "k ((c # b) @ t) = None" using Cons.prems(2) [of "[]" "c # b"] by simp
  moreover have "many_lazy ok k (b @ t) = many_lazy ok k t"
  proof (rule Cons.IH)
    from Cons.prems(1) show "list_all ok b" by simp
    fix u v assume "b = u @ v" "v \<noteq> []"
    then show "k (v @ t) = None" using Cons.prems(2) [of "c # u" v] by simp
  qed
  moreover from Cons.prems(1) have "ok c" by simp
  ultimately show ?case by simp
qed

lemma many_lazy_here: "k t = Some y \<Longrightarrow> many_lazy ok k t = Some y"
  by (cases t) simp_all

lemma many_greedy_run:
  assumes "list_all ok u" and "k t = Some y" and "t = [] \<or> \<not> ok (hd t)"
  shows "many_greedy ok k (u @ t) = Some y"
  using assms
proof (induction u)
  case Nil
  then show ?case by (cases t) auto
next
  case (Cons c u)
  then show ?case by simp
qed

section \<open>A script element in plain text\<close>

lemma not_letter_lt: "CHR ''<'' \<notin> set lower_letters \<and> CHR ''<'' \<notin> set upper_letters"
  by (simp add: lower_letters_def upper_letters_def)

lemma any_char_ok: "cset_ok ic any_char c"
  by (simp add: any_char_def cset_ok.simps)

lemma script_rx_no_lt:
  assumes "CHR ''<'' \<notin> set v" and "v \<noteq> []"
  shows "match_here True script_rx (v @ t) = None"
proof -
  from assms obtain x v' where v: "v = x # v'" and x: "x \<noteq> CHR ''<''" by (cases v) auto
  have "\<not> lit_prefix True ''<script'' (v @ t)"
    using x not_letter_lt by (simp add: v chr_exact)
  then show ?thesis
    by (simp add: match_here_def script_rx_def rx_match_lit del: lit_prefix.simps)
qed

lemma close_not_before:
  assumes "\<not> occurs True w (b @ butlast cl)" and "length cl = length w" and "w \<noteq> []"
    and "b = u @ v" and "v \<noteq> []"
  shows "\<not> lit_prefix True w (v @ cl @ c)"
proof -
  from assms(2,3) obtain xs x where cl: "cl = xs @ [x]" by (cases cl rule: rev_cases) auto
  have "suffix (v @ xs) (b @ butlast cl)" by (simp add: assms(4) cl suffix_def)
  with assms(1) have 1: "\<not> lit_prefix True w (v @ xs)" by (rule not_occurs_suffix)
  from assms(2,5) have "length w \<le> length (v @ xs)"
    by (cases v) (auto simp: cl)
  then have "lit_prefix True w ((v @ xs) @ (x # c)) = lit_prefix True w (v @ xs)"
    by (rule lit_prefix_append)
  with 1 show ?thesis by (simp add: cl)
qed

lemma script_rx_block:
  assumes op: "map to_lower op = ''<script''" and cl: "map to_lower cl = ''</script>''"
    and b: "\<not> occurs True ''</script>'' (b @ butlast cl)"
  shows "match_here True script_rx ((op @ b @ cl) @ c) = Some (Map.empty, c)"
proof -
  let ?final = "\<lambda>cs t. Some (cs :: caps, t :: string)"
  let ?k = "rx_match True (Seq (lit ''</script>'') Eps) ?final Map.empty"
  from op have "length (map to_lower op) = length ''<script''" by simp
  then have lop: "length op = 7" by simp
  from cl have "length (map to_lower cl) = length ''</script>''" by simp
  then have lcl: "length cl = 9" by simp
  have here: "?k (cl @ c) = Some (Map.empty, c)"
    using lit_prefix_lower [OF cl, of c] lcl by (simp add: rx_match_lit del: lit_prefix.simps)
  have skip: "?k (v @ cl @ c) = None" if "b = u @ v" "v \<noteq> []" for u v
  proof -
    have "\<not> lit_prefix True ''</script>'' (v @ cl @ c)"
      by (rule close_not_before [OF b _ _ that]) (simp_all add: lcl)
    then show ?thesis by (simp add: rx_match_lit del: lit_prefix.simps)
  qed
  have "many_lazy (cset_ok True any_char) ?k (b @ cl @ c) = many_lazy (cset_ok True any_char) ?k (cl @ c)"
  proof (rule many_lazy_skip)
    show "list_all (cset_ok True any_char) b" by (simp add: list_all_iff any_char_ok)
    fix u v assume "b = u @ v" "v \<noteq> []"
    then show "?k (v @ cl @ c) = None" by (rule skip)
  qed
  also have "\<dots> = Some (Map.empty, c)" by (rule many_lazy_here) (rule here)
  finally have lazy: "many_lazy (cset_ok True any_char) ?k (b @ cl @ c) = Some (Map.empty, c)" .
  show ?thesis
    using lit_prefix_lower [OF op, of "b @ cl @ c"] lop lazy
    by (simp add: match_here_def script_rx_def rx_lazy_def rx_match_lit del: lit_prefix.simps)
qed

lemma remove_script_block:
  assumes a: "CHR ''<'' \<notin> set a" and c: "CHR ''<'' \<notin> set c"
    and op: "map to_lower op = ''<script''" and cl: "map to_lower cl = ''</script>''"
    and b: "\<not> occurs True ''</script>'' (b @ butlast cl)"
  shows "remove_all script_rx (a @ op @ b @ cl @ c) = a @ c"
proof -
  let ?f = "\<lambda>(m :: string) (cs :: caps). [] :: string"
  from op have ne: "op @ b @ cl \<noteq> []" by auto
  have 1: "replace_from True script_rx ?f 0 (a @ (op @ b @ cl) @ c)
           = a @ replace_from True script_rx ?f 0 ((op @ b @ cl) @ c)"
  proof (rule replace_from_prefix)
    fix u v assume "a = u @ v" "v \<noteq> []"
    with a show "match_here True script_rx (v @ (op @ b @ cl) @ c) = None"
      by (intro script_rx_no_lt) auto
  qed
  have 2: "replace_from True script_rx ?f 0 ((op @ b @ cl) @ c)
           = ?f (op @ b @ cl) Map.empty @ replace_from True script_rx ?f 0 c"
    by (rule replace_from_match [OF script_rx_block [OF op cl b] ne])
  have 3: "replace_from True script_rx ?f 0 c = c"
  proof (rule replace_from_no_match)
    fix t assume "suffix t c"
    with c have "CHR ''<'' \<notin> set t" by (auto dest: set_mono_suffix)
    then show "match_here True script_rx t = None"
      using script_rx_no_lt [of t "[]"]
      by (cases t) (simp_all add: match_here_def script_rx_def rx_match_lit)
  qed
  from 1 2 3 show ?thesis by (simp add: remove_all_def replace_all_def)
qed

section \<open>Taking a match apart\<close>

lemma rx_match_One_Some:
  "rx_match ic (One a) k cs t = Some y \<Longrightarrow> \<exists>c t'. t = c # t' \<and> cset_ok ic a c \<and> k cs t' = Some y"
  by (cases t) (auto split: if_splits)

lemma many_greedy_Some:
  "many_greedy ok k t = Some y \<Longrightarrow> \<exists>u t'. t = u @ t' \<and> list_all ok u \<and> k t' = Some y"
proof (induction t)
  case Nil
  then show ?case by auto
next
  case (Cons c t)
  show ?case
  proof (cases "ok c \<and> many_greedy ok k t \<noteq> None")
    case True
    with Cons.prems have "many_greedy ok k t = Some y" by auto
    from Cons.IH [OF this] obtain u t' where "t = u @ t'" "list_all ok u" "k t' = Some y"
      by blast
    with True have "c # t = (c # u) @ t' \<and> list_all ok (c # u) \<and> k t' = Some y" by simp
    then show ?thesis by blast
  next
    case False
    with Cons.prems have "k (c # t) = Some y" by (auto split: if_splits option.splits)
    then have "c # t = [] @ (c # t) \<and> list_all ok [] \<and> k (c # t) = Some y" by simp
    then show ?thesis by blast
  qed
qed

lemma split_unique:
  assumes "x \<notin> set p" and "x \<notin> set r" and "p @ x # r = p' @ x # r'"
  shows "p = p' \<and> r = r'"
  using assms
proof (induction p arbitrary: p')
  case Nil
  then show ?case by (cases p') auto
next
  case (Cons y p)
  from Cons.prems show ?case
  proof (cases p')
    case Nil
    with Cons.prems show ?thesis by auto
  next
    case (Cons y' p'')
    with Cons.prems Cons.IH [of p''] show ?thesis by auto
  qed
qed

lemma first_other:
  assumes "list_all P x" and "list_all P y" and "\<not> P a" and "\<not> P b"
    and "x @ a # r = y @ b # r'"
  shows "x = y \<and> a = b \<and> r = r'"
  using assms
proof (induction x arbitrary: y)
  case Nil
  then show ?case by (cases y) auto
next
  case (Cons c x)
  from Cons.prems show ?case
  proof (cases y)
    case Nil
    with Cons.prems show ?thesis by auto
  next
    case (Cons c' y')
    with Cons.prems Cons.IH [of y'] show ?thesis by auto
  qed
qed

lemma letters_then_spaces:
  assumes "list_all L mid" and "list_all S sp" and "\<not> L w" and "\<not> S y"
    and "mid @ sp = xs @ w # y # ys"
  shows False
  using assms
proof (induction mid arbitrary: xs)
  case Nil
  then have "y \<in> set sp" by simp
  with Nil show ?case by (auto simp: list_all_iff)
next
  case (Cons m mid)
  from Cons.prems show ?case
  proof (cases xs)
    case Nil
    with Cons.prems show ?thesis by auto
  next
    case (Cons x xs')
    with Cons.prems Cons.IH [of xs'] show ?thesis by auto
  qed
qed

section \<open>Letters, white space and the other characters\<close>

lemma lower_upper_disjoint: "c \<in> set lower_letters \<Longrightarrow> c \<notin> set upper_letters"
  by (auto simp: lower_letters_def upper_letters_def)

lemma space_ci: "cset_ok ic cs_space c = is_space c"
  using to_upper_cases [of c] to_lower_cases [of c]
    space_not_letter [of "to_upper c"] space_not_letter [of "to_lower c"]
  by (auto simp: cs_space_def cset_ok.simps)

lemma to_upper_letter: "c \<in> set lower_letters \<Longrightarrow> to_upper c \<in> set upper_letters"
  by (auto simp: lower_letters_def upper_letters_def to_upper_def)

lemma to_lower_letter: "c \<in> set upper_letters \<Longrightarrow> to_lower c \<in> set lower_letters"
  by (auto simp: lower_letters_def upper_letters_def to_lower_def)

lemma letter_ci: "cset_ok True lower_az c = is_letter c"
proof -
  have "to_upper c \<in> set lower_letters \<Longrightarrow> c \<in> set lower_letters"
    using to_upper_cases [of c] lower_upper_disjoint [of "to_upper c"] by auto
  moreover have "to_lower c \<in> set lower_letters \<Longrightarrow> c \<in> set lower_letters \<or> c \<in> set upper_letters"
    using to_lower_id [of c] by auto
  ultimately show ?thesis
    by (auto simp: lower_az_def cset_ok.simps is_letter_def is_lower_def is_upper_def to_lower_letter)
qed

lemma letter_not_space: "is_letter c \<Longrightarrow> \<not> is_space c"
  using space_not_letter [of c] by (auto simp: is_letter_def is_lower_def is_upper_def)

lemma chr_letter:
  assumes "cset_ok True (CSet False (\<lambda>x. x = a)) c" and "a \<in> set lower_letters"
  shows "is_letter c"
proof -
  from assms(1) have "c = a \<or> to_upper c = a \<or> to_lower c = a" by (simp add: cset_ok.simps)
  moreover have "to_upper c = a \<Longrightarrow> c = a"
    using to_upper_cases [of c] lower_upper_disjoint [OF assms(2)] by auto
  moreover have "to_lower c = a \<Longrightarrow> c = a \<or> c \<in> set upper_letters"
    using to_lower_id [of c] by auto
  ultimately show ?thesis using assms(2)
    by (auto simp: is_letter_def is_lower_def is_upper_def)
qed

lemma none_of_exact:
  assumes "a \<notin> set lower_letters" and "a \<notin> set upper_letters"
  shows "cset_ok ic (none_of [a]) c = (c \<noteq> a)"
  using assms to_upper_cases [of c] to_lower_cases [of c]
  by (auto simp: none_of_def cset_ok.simps)


section \<open>The shape of a handler match\<close>

lemma lit_prefix_on:
  assumes "lit_prefix True ''on'' t"
  shows "\<exists>o1 o2 t'. t = o1 # o2 # t' \<and> is_letter o1 \<and> is_letter o2"
proof -
  from assms obtain o1 t1 where t: "t = o1 # t1"
    and o1: "cset_ok True (CSet False (\<lambda>x. x = CHR ''o'')) o1" and 1: "lit_prefix True ''n'' t1"
    by (cases t) auto
  from 1 obtain o2 t2 where t1: "t1 = o2 # t2"
    and o2: "cset_ok True (CSet False (\<lambda>x. x = CHR ''n'')) o2"
    by (cases t1) auto
  have "is_letter o1" by (rule chr_letter [OF o1]) (simp add: lower_letters_def)
  moreover have "is_letter o2" by (rule chr_letter [OF o2]) (simp add: lower_letters_def)
  ultimately show ?thesis using t t1 by blast
qed

lemma not_letter_eq: "CHR ''='' \<notin> set lower_letters \<and> CHR ''='' \<notin> set upper_letters"
  by (simp add: lower_letters_def upper_letters_def)

lemma rx_match_Seq: "rx_match ic (Seq r1 r2) k = rx_match ic r1 (rx_match ic r2 k)"
  by (intro ext) simp

lemma handler_match_shape:
  assumes m: "match_here True (handler_rx (Seq (rx_chr q0) R)) t = Some y"
    and nl: "q0 \<notin> set lower_letters" "q0 \<notin> set upper_letters"
  shows "\<exists>c1 mid sp sp' rest.
           t = c1 # mid @ sp @ CHR ''='' # sp' @ q0 # rest \<and> is_space c1 \<and> mid \<noteq> []
           \<and> list_all is_letter mid \<and> all_space sp \<and> all_space sp'"
proof -
  let ?k = "\<lambda>(cs :: caps) (t :: string). Some (cs, t)"
  let ?K6 = "rx_match True (One (CSet False (\<lambda>x. x = q0))) (rx_match True R (rx_match True Eps ?k))"
  let ?K5 = "rx_match True (Many True cs_space) ?K6"
  let ?K4 = "rx_match True (One (CSet False (\<lambda>x. x = CHR ''=''))) ?K5"
  let ?K3 = "rx_match True (Many True cs_space) ?K4"
  let ?K2 = "rx_match True (Many True lower_az) ?K3"
  let ?K1 = "rx_match True (One lower_az) ?K2"
  from m have 0: "rx_match True (One cs_space) (rx_match True (lit ''on'') ?K1) Map.empty t = Some y"
    by (simp only: match_here_def handler_rx_def seqs.simps rx_match_Seq rx_plus_def
        rx_star_def rx_chr_def)
  from rx_match_One_Some [OF 0] obtain c1 t1 where t: "t = c1 # t1"
    and c1: "cset_ok True cs_space c1" and 1: "rx_match True (lit ''on'') ?K1 Map.empty t1 = Some y"
    by blast
  from 1 have p: "lit_prefix True ''on'' t1" and 2: "?K1 Map.empty (drop (length ''on'') t1) = Some y"
    by (auto simp only: rx_match_lit split: if_splits)
  from lit_prefix_on [OF p] obtain o1 o2 t2 where t1: "t1 = o1 # o2 # t2"
    and o: "is_letter o1" "is_letter o2" by blast
  from 2 t1 have "?K1 Map.empty t2 = Some y" by simp
  from rx_match_One_Some [OF this] obtain l t3 where t2: "t2 = l # t3"
    and l: "cset_ok True lower_az l" and 3: "?K2 Map.empty t3 = Some y" by blast
  from 3 have "many_greedy (cset_ok True lower_az) (?K3 Map.empty) t3 = Some y" by simp
  from many_greedy_Some [OF this] obtain ls t4 where t3: "t3 = ls @ t4"
    and ls: "list_all (cset_ok True lower_az) ls" and 4: "?K3 Map.empty t4 = Some y" by blast
  from 4 have "many_greedy (cset_ok True cs_space) (?K4 Map.empty) t4 = Some y" by simp
  from many_greedy_Some [OF this] obtain sp t5 where t4: "t4 = sp @ t5"
    and sp: "list_all (cset_ok True cs_space) sp" and 5: "?K4 Map.empty t5 = Some y" by blast
  from rx_match_One_Some [OF 5] obtain e t6 where t5: "t5 = e # t6"
    and e: "cset_ok True (CSet False (\<lambda>x. x = CHR ''='')) e" and 6: "?K5 Map.empty t6 = Some y"
    by blast
  from 6 have "many_greedy (cset_ok True cs_space) (?K6 Map.empty) t6 = Some y" by simp
  from many_greedy_Some [OF this] obtain sp' t7 where t6: "t6 = sp' @ t7"
    and sp': "list_all (cset_ok True cs_space) sp'" and 7: "?K6 Map.empty t7 = Some y" by blast
  from rx_match_One_Some [OF 7] obtain x rest where t7: "t7 = x # rest"
    and x: "cset_ok True (CSet False (\<lambda>x. x = q0)) x" by blast
  from x nl have x': "x = q0" by (simp add: chr_exact)
  from e have e': "e = CHR ''=''" using not_letter_eq by (simp add: chr_exact)
  have "t = c1 # (o1 # o2 # l # ls) @ sp @ CHR ''='' # sp' @ q0 # rest"
    by (simp add: t t1 t2 t3 t4 t5 t6 t7 x' e')
  moreover from c1 have "is_space c1" by (simp add: space_ci)
  moreover from o l ls have "list_all is_letter (o1 # o2 # l # ls)"
    by (simp add: letter_ci list_all_iff)
  moreover from sp have "all_space sp" by (simp add: all_space_def space_ci list_all_iff)
  moreover from sp' have "all_space sp'" by (simp add: all_space_def space_ci list_all_iff)
  ultimately show ?thesis by blast
qed


section \<open>A handler attribute in known text\<close>

lemma keyword_on:
  assumes "map to_lower kw = ''on''"
  shows "\<exists>o1 o2. kw = [o1, o2] \<and> is_letter o1 \<and> is_letter o2"
proof -
  from assms obtain o1 o2 where kw: "kw = [o1, o2]"
    and 1: "to_lower o1 = CHR ''o''" and 2: "to_lower o2 = CHR ''n''"
    by (auto simp: map_eq_Cons_conv)
  have "to_lower c \<in> set lower_letters \<Longrightarrow> is_letter c" for c
    using to_lower_id [of c] by (auto simp: is_letter_def is_lower_def is_upper_def)
  with 1 2 have "is_letter o1" "is_letter o2" by (simp_all add: lower_letters_def)
  with kw show ?thesis by blast
qed

lemma letter_not_eq: "is_letter c \<Longrightarrow> c \<noteq> CHR ''=''"
  using not_letter_eq by (auto simp: is_letter_def is_lower_def is_upper_def)

lemma space_not_eq: "is_space c \<Longrightarrow> c \<noteq> CHR ''=''"
  by (auto simp: is_space_def)

lemma chr_self: "cset_ok ic (CSet False (\<lambda>x. x = a)) a"
  by (simp add: cset_ok.simps)

lemma handler_match_here:
  assumes w: "is_space w" and kw: "map to_lower kw = ''on''"
    and name: "name \<noteq> []" "list_all is_letter name"
    and sp: "all_space sp1" "all_space sp2"
    and q: "\<not> is_space q"
    and q': "q' \<notin> set lower_letters" "q' \<notin> set upper_letters" "q' \<notin> set v"
  shows "match_here True (handler_rx (value_rx q q'))
           ((w # kw @ name @ sp1 @ CHR ''='' # sp2 @ q # v @ [q']) @ c) = Some (Map.empty, c)"
proof -
  let ?k = "\<lambda>(cs :: caps) (t :: string). Some (cs, t)"
  let ?V3 = "rx_match True (One (CSet False (\<lambda>x. x = q'))) (rx_match True Eps (rx_match True Eps ?k))"
  let ?V2 = "rx_match True (Many True (none_of [q'])) ?V3"
  let ?K6 = "rx_match True (One (CSet False (\<lambda>x. x = q))) ?V2"
  let ?K5 = "rx_match True (Many True cs_space) ?K6"
  let ?K4 = "rx_match True (One (CSet False (\<lambda>x. x = CHR ''=''))) ?K5"
  let ?K3 = "rx_match True (Many True cs_space) ?K4"
  let ?K2 = "rx_match True (Many True lower_az) ?K3"
  let ?K1 = "rx_match True (One lower_az) ?K2"
  from name obtain l ls where nm: "name = l # ls" and l: "is_letter l" and ls: "list_all is_letter ls"
    by (cases name) auto
  from kw have lkw: "length kw = 2" by (auto simp: map_eq_Cons_conv)
  have v3: "?V3 Map.empty (q' # c) = Some (Map.empty, c)"
    by (simp add: chr_self)
  have v2: "?V2 Map.empty (v @ q' # c) = Some (Map.empty, c)"
  proof -
    have "many_greedy (cset_ok True (none_of [q'])) (?V3 Map.empty) (v @ q' # c) = Some (Map.empty, c)"
      using q' by (intro many_greedy_run v3) (auto simp: none_of_exact list_all_iff)
    then show ?thesis by simp
  qed
  have k6: "?K6 Map.empty (q # v @ q' # c) = Some (Map.empty, c)"
    using v2 by (simp add: chr_self)
  have k5: "?K5 Map.empty (sp2 @ q # v @ q' # c) = Some (Map.empty, c)"
  proof -
    have "many_greedy (cset_ok True cs_space) (?K6 Map.empty) (sp2 @ q # v @ q' # c) = Some (Map.empty, c)"
      using sp(2) q by (intro many_greedy_run k6) (auto simp: space_ci all_space_def list_all_iff)
    then show ?thesis by simp
  qed
  have k4: "?K4 Map.empty (CHR ''='' # sp2 @ q # v @ q' # c) = Some (Map.empty, c)"
    using k5 by (simp add: chr_self)
  have k3: "?K3 Map.empty (sp1 @ CHR ''='' # sp2 @ q # v @ q' # c) = Some (Map.empty, c)"
  proof -
    have "many_greedy (cset_ok True cs_space) (?K4 Map.empty) (sp1 @ CHR ''='' # sp2 @ q # v @ q' # c)
          = Some (Map.empty, c)"
      using sp(1) by (intro many_greedy_run k4) (auto simp: space_ci all_space_def list_all_iff is_space_def)
    then show ?thesis by simp
  qed
  have k2: "?K2 Map.empty (ls @ sp1 @ CHR ''='' # sp2 @ q # v @ q' # c) = Some (Map.empty, c)"
  proof -
    have "\<not> cset_ok True lower_az (hd (sp1 @ CHR ''='' # sp2 @ q # v @ q' # c))"
      using sp(1) letter_not_space [of "hd sp1"] letter_not_eq [of "CHR ''=''"]
      by (cases sp1) (auto simp: letter_ci all_space_def)
    then have "many_greedy (cset_ok True lower_az) (?K3 Map.empty) (ls @ sp1 @ CHR ''='' # sp2 @ q # v @ q' # c)
          = Some (Map.empty, c)"
      using ls by (intro many_greedy_run k3) (auto simp: letter_ci list_all_iff)
    then show ?thesis by simp
  qed
  have k1: "?K1 Map.empty (name @ sp1 @ CHR ''='' # sp2 @ q # v @ q' # c) = Some (Map.empty, c)"
    using k2 l by (simp add: nm letter_ci)
  have k0: "rx_match True (lit ''on'') ?K1 Map.empty (kw @ name @ sp1 @ CHR ''='' # sp2 @ q # v @ q' # c)
            = Some (Map.empty, c)"
    using lit_prefix_lower [OF kw] lkw k1 by (simp add: rx_match_lit del: lit_prefix.simps)
  have "rx_match True (One cs_space) (rx_match True (lit ''on'') ?K1) Map.empty
          (w # kw @ name @ sp1 @ CHR ''='' # sp2 @ q # v @ q' # c) = Some (Map.empty, c)"
    using w k0 by (simp add: space_ci)
  then show ?thesis
    by (simp only: match_here_def handler_rx_def value_rx_def seqs.simps rx_match_Seq rx_plus_def
        rx_star_def rx_chr_def append.simps append_assoc)
qed


lemma value_rx_forms:
  "dq_value = value_rx (CHR 0x22) (CHR 0x22)" "sq_value = value_rx (CHR 0x27) (CHR 0x27)"
  "brace_value = value_rx CHR ''{'' CHR ''}''"
  by (simp_all add: dq_value_def sq_value_def brace_value_def value_rx_def)

lemma value_rx_Seq:
  "value_rx q q' = Seq (rx_chr q) (Seq (rx_star (none_of [q'])) (Seq (rx_chr q') Eps))"
  by (simp add: value_rx_def)

lemma handler_ok_delims:
  assumes "handler_ok w kw name sp1 sp2 q v q'"
  shows "\<not> is_space q" "q \<notin> set lower_letters" "q \<notin> set upper_letters" "q \<noteq> CHR ''=''"
    "q' \<notin> set lower_letters" "q' \<notin> set upper_letters" "q' \<noteq> CHR ''=''"
  using assms
  by (auto simp: handler_ok_def is_space_def lower_letters_def upper_letters_def)

lemma handler_ok_before:
  assumes "handler_ok w kw name sp1 sp2 q v q'"
  shows "CHR ''='' \<notin> set (w # kw @ name @ sp1)"
proof -
  from assms have kw: "map to_lower kw = ''on''" by (simp add: handler_ok_def)
  from keyword_on [OF kw] have "CHR ''='' \<notin> set kw" by (auto dest: letter_not_eq)
  with assms show ?thesis
    by (auto simp: handler_ok_def all_space_def list_all_iff dest: letter_not_eq space_not_eq)
qed

lemma handler_ok_after:
  assumes "handler_ok w kw name sp1 sp2 q v q'"
  shows "CHR ''='' \<notin> set (sp2 @ q # v @ [q'])"
  using assms handler_ok_delims(4,7) [OF assms]
  by (auto simp: handler_ok_def all_space_def list_all_iff dest: space_not_eq)

lemma handler_needs_eq:
  assumes "match_here True (handler_rx (Seq (rx_chr q0) R)) t = Some y"
    and "q0 \<notin> set lower_letters" "q0 \<notin> set upper_letters"
  shows "CHR ''='' \<in> set t"
  using handler_match_shape [OF assms] by auto

lemma remove_handler_same:
  assumes ok: "handler_ok w kw name sp1 sp2 q v q'"
    and a: "CHR ''='' \<notin> set a" and c: "CHR ''='' \<notin> set c"
  shows "remove_all (handler_rx (value_rx q q')) (a @ handler_text w kw name sp1 sp2 q v q' @ c) = a @ c"
proof -
  let ?r = "handler_rx (value_rx q q')"
  let ?h = "handler_text w kw name sp1 sp2 q v q'"
  let ?f = "\<lambda>(m :: string) (cs :: caps). [] :: string"
  note d = handler_ok_delims [OF ok]
  from ok have w: "is_space w" and kw: "map to_lower kw = ''on''"
    and name: "name \<noteq> []" "list_all is_letter name" and sp: "all_space sp1" "all_space sp2"
    and v: "q' \<notin> set v"
    by (simp_all add: handler_ok_def)
  from keyword_on [OF kw] obtain o1 o2 where kw2: "kw = [o1, o2]" and o1: "is_letter o1" by blast
  have 1: "replace_from True ?r ?f 0 (a @ ?h @ c) = a @ replace_from True ?r ?f 0 (?h @ c)"
  proof (rule replace_from_prefix)
    fix u x assume ux: "a = u @ x" "x \<noteq> []"
    show "match_here True ?r (x @ ?h @ c) = None"
    proof (rule ccontr)
      assume "match_here True ?r (x @ ?h @ c) \<noteq> None"
      then obtain y where "match_here True (handler_rx (Seq (rx_chr q) (Seq (rx_star (none_of [q'])) (Seq (rx_chr q') Eps)))) (x @ ?h @ c) = Some y"
        by (auto simp: value_rx_Seq)
      from handler_match_shape [OF this d(2,3)] obtain c1 mid s1 s2 rest
        where t: "x @ ?h @ c = c1 # mid @ s1 @ CHR ''='' # s2 @ q # rest"
          and mid: "list_all is_letter mid" and s1: "all_space s1" by blast
      from t have "(x @ w # kw @ name @ sp1) @ CHR ''='' # ((sp2 @ q # v @ [q']) @ c)
                   = (c1 # mid @ s1) @ CHR ''='' # (s2 @ q # rest)"
        by (simp add: handler_text_def)
      moreover from ux a handler_ok_before [OF ok] have "CHR ''='' \<notin> set (x @ w # kw @ name @ sp1)"
        by auto
      moreover from c handler_ok_after [OF ok] have "CHR ''='' \<notin> set ((sp2 @ q # v @ [q']) @ c)"
        by auto
      ultimately have e: "x @ w # kw @ name @ sp1 = c1 # mid @ s1"
        by (blast dest: split_unique)
      with ux(2) obtain x' where "x = c1 # x'" by (cases x) auto
      with e have "mid @ s1 = x' @ w # o1 # (o2 # name @ sp1)" by (simp add: kw2)
      with mid s1 w o1 show False
        using letters_then_spaces [of is_letter mid is_space s1 w o1 x' "o2 # name @ sp1"]
        by (auto simp: all_space_def dest: letter_not_space)
    qed
  qed
  have 2: "replace_from True ?r ?f 0 (?h @ c) = ?f ?h Map.empty @ replace_from True ?r ?f 0 c"
  proof (rule replace_from_match)
    show "match_here True ?r (?h @ c) = Some (Map.empty, c)"
      unfolding handler_text_def
      by (rule handler_match_here [OF w kw name sp d(1) d(5,6) v])
    show "?h \<noteq> []" by (simp add: handler_text_def)
  qed
  have 3: "replace_from True ?r ?f 0 c = c"
  proof (rule replace_from_no_match)
    fix t assume "suffix t c"
    with c have "CHR ''='' \<notin> set t" by (auto dest: set_mono_suffix)
    then show "match_here True ?r t = None"
      using handler_needs_eq [of q _ t, OF _ d(2,3)]
      by (cases "match_here True ?r t") (auto simp: value_rx_Seq)
  qed
  from 1 2 3 show ?thesis by (simp add: remove_all_def replace_all_def)
qed

lemma remove_handler_other:
  assumes ok: "handler_ok w kw name sp1 sp2 q v q'"
    and a: "CHR ''='' \<notin> set a" and c: "CHR ''='' \<notin> set c"
    and o: "q0 \<noteq> q" "\<not> is_space q0"
      "q0 \<notin> set lower_letters" "q0 \<notin> set upper_letters"
  shows "remove_all (handler_rx (Seq (rx_chr q0) R)) (a @ handler_text w kw name sp1 sp2 q v q' @ c)
         = a @ handler_text w kw name sp1 sp2 q v q' @ c"
  unfolding remove_all_def replace_all_def
proof (rule replace_from_no_match)
  let ?s = "a @ handler_text w kw name sp1 sp2 q v q' @ c"
  note d = handler_ok_delims [OF ok]
  from ok have sp2: "all_space sp2" by (simp add: handler_ok_def)
  fix t assume suf: "suffix t ?s"
  show "match_here True (handler_rx (Seq (rx_chr q0) R)) t = None"
  proof (rule ccontr)
    assume "match_here True (handler_rx (Seq (rx_chr q0) R)) t \<noteq> None"
    then obtain y where "match_here True (handler_rx (Seq (rx_chr q0) R)) t = Some y" by auto
    from handler_match_shape [OF this o(3,4)] obtain c1 mid s1 s2 rest
      where t: "t = c1 # mid @ s1 @ CHR ''='' # s2 @ q0 # rest" and s2: "all_space s2" by blast
    from suf obtain z where "?s = z @ t" by (auto simp: suffix_def)
    with t have "(a @ w # kw @ name @ sp1) @ CHR ''='' # (sp2 @ q # (v @ [q'] @ c))
                 = (z @ c1 # mid @ s1) @ CHR ''='' # (s2 @ q0 # rest)"
      by (simp add: handler_text_def)
    moreover from a handler_ok_before [OF ok] have "CHR ''='' \<notin> set (a @ w # kw @ name @ sp1)"
      by auto
    moreover from c handler_ok_after [OF ok] have "CHR ''='' \<notin> set (sp2 @ q # (v @ [q'] @ c))"
      by auto
    ultimately have "sp2 @ q # (v @ [q'] @ c) = s2 @ q0 # rest"
      by (blast dest: split_unique)
    with sp2 s2 d(1) o(2) have "q = q0"
      using first_other [of is_space sp2 s2 q q0 "v @ [q'] @ c" rest]
      by (auto simp: all_space_def)
    with o(1) show False by simp
  qed
qed


lemma exec_Some_match:
  "exec ic r s = Some (i, m, cs) \<Longrightarrow> \<exists>t u. suffix t s \<and> match_here ic r t = Some (cs, u)"
proof (induction s arbitrary: i)
  case Nil
  then show ?case by (auto split: option.splits)
next
  case (Cons c s)
  show ?case
  proof (cases "match_here ic r (c # s)")
    case None
    with Cons.prems obtain j where "exec ic r s = Some (j, m, cs)" by (auto split: option.splits)
    from Cons.IH [OF this] show ?thesis by (auto intro: suffix_ConsI)
  next
    case (Some p)
    with Cons.prems have "match_here ic r (c # s) = Some (cs, snd p)"
      by (cases p) auto
    then show ?thesis by blast
  qed
qed

lemma has_handler_eq:
  assumes "has_handler t"
  shows "CHR ''='' \<in> set t"
proof -
  let ?k = "\<lambda>(cs :: caps) (t :: string). Some (cs, t)"
  let ?K2 = "rx_match True (One (CSet False (\<lambda>x. x = CHR ''=''))) (rx_match True Eps ?k)"
  let ?K1 = "rx_match True (Seq (One lower_az) (Many True lower_az)) ?K2"
  from assms obtain i m cs where "exec True handler_name_rx t = Some (i, m, cs)"
    by (auto simp: has_handler_def find_match_def)
  from exec_Some_match [OF this] obtain t0 u where t0: "suffix t0 t"
    and "match_here True handler_name_rx t0 = Some (cs, u)" by blast
  then have "rx_match True (lit ''on'') ?K1 Map.empty t0 = Some (cs, u)"
    by (simp only: match_here_def handler_name_rx_def seqs.simps rx_match_Seq rx_plus_def rx_chr_def)
  from rx_match_suffix [OF this] obtain cs1 t1 where t1: "suffix t1 t0"
    and "?K1 cs1 t1 = Some (cs, u)" by blast
  from rx_match_suffix [OF this(2)] obtain cs2 t2 where t2: "suffix t2 t1"
    and "?K2 cs2 t2 = Some (cs, u)" by blast
  from rx_match_One_Some [OF this(2)] obtain e t3 where "t2 = e # t3"
    and "cset_ok True (CSet False (\<lambda>x. x = CHR ''='')) e" by blast
  with not_letter_eq have "CHR ''='' \<in> set t2" by (simp add: chr_exact)
  with t0 t1 t2 show ?thesis by (auto dest!: set_mono_suffix)
qed

section \<open>The loop over the attributes ends\<close>

text \<open>
  A match of the attribute pattern is never empty, so that \<^verbatim>\<open>lastIndex\<close> grows at every
  round of the loop in \<^verbatim>\<open>parseAttributes\<close> and the loop ends.
\<close>

lemma attr_match_shorter:
  assumes "match_here False attr_rx s = Some (cs, t)"
  shows "length t < length s"
proof -
  let ?k = "\<lambda>(cs :: caps) (t :: string). Some (cs, t)"
  let ?rest = "Seq (rx_star cs_space) (Seq (rx_chr CHR ''='') (Seq (rx_star cs_space)
                 (Seq (Grp 2 (Alt brace_value (Alt dq_value sq_value))) Eps)))"
  let ?K = "\<lambda>cs' u. rx_match False ?rest ?k (cs'(1 \<mapsto> take (length s - length u) s)) u"
  from assms have "rx_match False (One name_start) (rx_match False (rx_star name_char) ?K) Map.empty s
                   = Some (cs, t)"
    by (simp add: match_here_def attr_rx_def)
  from rx_match_One_Some [OF this] obtain c s1 where s: "s = c # s1"
    and "rx_match False (rx_star name_char) ?K Map.empty s1 = Some (cs, t)" by blast
  from rx_match_suffix [OF this(2)] obtain cs1 s2 where 1: "suffix s2 s1"
    and "?K cs1 s2 = Some (cs, t)" by blast
  from rx_match_suffix [OF this(2)] obtain cs2 s3 where 2: "suffix s3 s2"
    and "?k cs2 s3 = Some (cs, t)" by blast
  then have "s3 = t" by simp
  with 1 2 have "length t \<le> length s1" by (auto dest!: suffix_length_le)
  with s show ?thesis by simp
qed

section \<open>The leftmost match\<close>











section \<open>The hero pattern on a section with the id\<close>






lemma foldl_set_attr_proto: "map_of (foldl set_attr al ms) ''__proto__'' = map_of al ''__proto__''"
  by (induction ms rule: rev_induct) (simp_all add: set_attr_def update_conv')

section \<open>The pattern objects keep no state\<close>

lemma extractPrimarySection_run_pure:
  "extractPrimarySection_run \<sigma> x = (extractPrimarySection x, \<sigma>)"
  by (simp add: extractPrimarySection_run_def extractPrimarySection_def regexp_exec_def
      hero_object_def main_object_def extractFallbackSection_run_def extractFallbackSection_def
      split: option.splits prod.splits)

text \<open>
  C9.  A call of \<^verbatim>\<open>extractPrimarySection\<close> returns the same result whatever state the calls
  before it left in the pattern objects of the module, it leaves that state as it found
  it, and its result is a function of the input text alone.
\<close>

theorem C9_deterministic:
  "fst (extractPrimarySection_run \<sigma>1 x) = fst (extractPrimarySection_run \<sigma>2 x)
   \<and> snd (extractPrimarySection_run \<sigma>1 x) = \<sigma>1
   \<and> fst (extractPrimarySection_run \<sigma>1 x) = extractPrimarySection x"
  by (simp add: extractPrimarySection_run_pure)

section \<open>Examples of the specification\<close>

text \<open>
  C8.  For the input \<^verbatim>\<open><Button variant="primary">Go</Button>\<close> the sanitized markup is
  \<^verbatim>\<open><button class="arena-btn">Go</button>\<close>: the tag is rewritten with the base class and the
  \<^verbatim>\<open>variant\<close> attribute is stripped.
\<close>

theorem C8_button_rewrite:
  "sanitizedHtml (extractPrimarySection ''<Button variant=\"primary\">Go</Button>'')
   = ''<button class=\"arena-btn\">Go</button>''"
  by code_simp

text \<open>
  C10.  The hero pattern accepts more than an \<^verbatim>\<open>id\<close> attribute equal to \<^verbatim>\<open>hero\<close>: a section
  whose \<^verbatim>\<open>data-id\<close> is \<^verbatim>\<open>hero\<close>, and a section whose \<^verbatim>\<open>id\<close> is \<^verbatim>\<open>HERO\<close>, are chosen as the
  hero section, here ahead of a main element.
\<close>

theorem C10_hero_pattern_is_wider:
  "rawSection (extractPrimarySection ''<main>M</main><section data-id=\"hero\">X</section>'')
     = ''<section data-id=\"hero\">X</section>''
   \<and> rawSection (extractPrimarySection ''<main>M</main><section id=\"HERO\">Y</section>'')
     = ''<section id=\"HERO\">Y</section>''"
  by code_simp

text \<open>
  C3.  The tag names of the rules are not disjoint for the opening-tag pattern: the
  pattern of the \<^verbatim>\<open>Card\<close> rule matches the tag \<^verbatim>\<open><CardHeader>\<close>, so that
  \<^verbatim>\<open><CardHeader>T</CardHeader>\<close> is rewritten with the class of the \<^verbatim>\<open>Card\<close> rule and not with
  \<^verbatim>\<open>arena-card__header\<close>.
\<close>

theorem C3_card_matches_cardheader:
  "find_match False (openingTagRegex ''Card'') ''<CardHeader>T</CardHeader>''
     = Some (0, ''<CardHeader>'')
   \<and> convertCustomComponents ''<CardHeader>T</CardHeader>'' = ''<div class=\"arena-card\">T</div>''"
  by code_simp

text \<open>
  C7.  When a name occurs more than once in the attribute text, the map holds the value
  of its last match in scan order: for every name other than \<^verbatim>\<open>__proto__\<close> the map holds the
  unwrapped raw value of the last match with that name, and nothing when no match has it.
  The name \<^verbatim>\<open>__proto__\<close> is never a key of the map.
\<close>

theorem C7_last_match_wins:
  "(k \<noteq> ''__proto__'' \<longrightarrow>
      map_of (parseAttributes source) k =
        (if filter (\<lambda>kv. fst kv = k) (attr_matches source) = [] then None
         else Some (unwrapAttributeValue (snd (last (filter (\<lambda>kv. fst kv = k) (attr_matches source)))))))
   \<and> map_of (parseAttributes source) ''__proto__'' = None"
  by (simp add: parseAttributes_def foldl_set_attr_lookup foldl_set_attr_proto)

theorem C7_last_match_wins_witness:
  "''a'' \<noteq> ''__proto__''
   \<and> attr_matches ''a=\"1\" a=\"2\"'' = [(''a'', ''\"1\"''), (''a'', ''\"2\"'')]
   \<and> map_of (parseAttributes ''a=\"1\" a=\"2\"'') ''a'' = Some ''2''
   \<and> attr_matches ''__proto__=\"x\"'' = [(''__proto__'', ''\"x\"'')]
   \<and> map_of (parseAttributes ''__proto__=\"x\"'') ''__proto__'' = None"
proof -
  have h: "''a'' \<noteq> ''__proto__''" by simp
  have m: "attr_matches ''a=\"1\" a=\"2\"'' = [(''a'', ''\"1\"''), (''a'', ''\"2\"'')]"
    by code_simp
  have u: "unwrapAttributeValue ''\"2\"'' = ''2''" by code_simp
  have p: "attr_matches ''__proto__=\"x\"'' = [(''__proto__'', ''\"x\"'')]" by code_simp
  from C7_last_match_wins [of "''a''" "''a=\"1\" a=\"2\"''"]
    C7_last_match_wins [of "''a''" "''__proto__=\"x\"''"] m u h p
  show ?thesis by simp
qed

text \<open>
  The attribute text \<^verbatim>\<open>a="1" a="2"\<close> has two matches for \<^verbatim>\<open>a\<close>; the map does not hold the value
  \<^verbatim>\<open>1\<close> of the first.
\<close>

theorem C7_first_match_counterexample:
  "attr_matches ''a=\"1\" a=\"2\"'' = [(''a'', ''\"1\"''), (''a'', ''\"2\"'')]
   \<and> unwrapAttributeValue ''\"1\"'' = ''1''
   \<and> map_of (parseAttributes ''a=\"1\" a=\"2\"'') ''a'' \<noteq> Some ''1''"
  by code_simp


section \<open>Blank input\<close>

text \<open>
  C5.  For the empty string and for every text of white space only, \<^verbatim>\<open>extractPrimarySection\<close>
  returns the input itself, untrimmed, in both fields: the empty string gives two empty
  fields, a text of white space gives that white space back.  The function is total: it
  never raises.
\<close>

theorem C5_blank_input:
  "all_space x \<Longrightarrow> extractPrimarySection x = \<lparr>sanitizedHtml = x, rawSection = x\<rparr>"
  by (simp add: extractPrimarySection_def extractFallbackSection_def HERO_SECTION_REGEX_def
      MAIN_SECTION_REGEX_def exec_lit_seq_space is_space_def trim_space normalizeSection_space)

theorem C5_blank_input_witness:
  "all_space [] \<and> extractPrimarySection [] = \<lparr>sanitizedHtml = [], rawSection = []\<rparr>
   \<and> all_space ''  '' \<and> extractPrimarySection ''  '' = \<lparr>sanitizedHtml = ''  '', rawSection = ''  ''\<rparr>"
proof -
  have 1: "all_space []" by (simp add: all_space_def)
  have 2: "all_space ''  ''" by (simp add: all_space_def is_space_def)
  from C5_blank_input [OF 1] C5_blank_input [OF 2] 1 2 show ?thesis by simp
qed

text \<open>For two spaces the result is not the pair of empty strings.\<close>

theorem C5_whitespace_counterexample:
  "all_space ''  '' \<and> extractPrimarySection ''  '' \<noteq> \<lparr>sanitizedHtml = [], rawSection = []\<rparr>"
  by code_simp

section \<open>The order of the candidates\<close>





section \<open>Running the sanitizer twice\<close>

text \<open>
  C4.  The sanitizer is not idempotent.  The earlier stages hand the text
  \<^verbatim>\<open><scr<script></script>ipt></script>\<close> to it unchanged; the first run removes the inner script
  block and leaves \<^verbatim>\<open><script></script>\<close>, which the text around the removed block has joined
  into; a second run removes that too, so the two results differ.
\<close>

theorem C4_second_run_differs:
  "convertCustomComponents (convertClassBindings (stripJsxArtifacts ''<scr<script></script>ipt></script>''))
     = ''<scr<script></script>ipt></script>''
   \<and> sanitizeMarkup ''<scr<script></script>ipt></script>'' = ''<script></script>''
   \<and> sanitizeMarkup (sanitizeMarkup ''<scr<script></script>ipt></script>'') = []
   \<and> sanitizeMarkup (sanitizeMarkup ''<scr<script></script>ipt></script>'')
       \<noteq> sanitizeMarkup ''<scr<script></script>ipt></script>''"
  by code_simp

section \<open>Script elements\<close>

text \<open>
  A script element inside text without any \<^verbatim>\<open><\<close> character is removed, and nothing of it
  is left.
\<close>

lemma script_element_in_plain_text:
  assumes "CHR ''<'' \<notin> set a" and "CHR ''<'' \<notin> set c"
    and "map to_lower op = ''<script''" and "map to_lower cl = ''</script>''"
    and "\<not> occurs True ''</script>'' (b @ butlast cl)"
  shows "\<not> occurs True ''<script'' (sanitizeMarkup (a @ op @ b @ cl @ c))"
proof -
  have "remove_all script_rx (a @ op @ b @ cl @ c) = a @ c"
    using assms by (rule remove_script_block)
  moreover from assms(1,2) have "list_all (\<lambda>x. x \<noteq> CHR ''<'') (a @ c)"
    by (auto simp: list_all_iff)
  ultimately have "list_all (\<lambda>x. x \<noteq> CHR ''<'') (sanitizeMarkup (a @ op @ b @ cl @ c))"
    by (intro sanitizeMarkup_keeps) simp
  then have "CHR ''<'' \<notin> set (sanitizeMarkup (a @ op @ b @ cl @ c))"
    by (auto simp: list_all_iff)
  with not_letter_lt show ?thesis by (intro occurs_absent_head) auto
qed

text \<open>
  C1.  The input \<^verbatim>\<open><scr<script></script>ipt>x</script>\<close> contains a script element, and the
  sanitized markup that \<^verbatim>\<open>extractPrimarySection\<close> returns for it is \<^verbatim>\<open><script>x</script>\<close>: the
  script block is removed in one scan, the text around it joins into a new script element,
  and the result contains \<^verbatim>\<open><script\<close>.
\<close>

theorem C1_script_survives:
  "find_match True script_rx ''<scr<script></script>ipt>x</script>'' = Some (4, ''<script></script>'')
   \<and> sanitizedHtml (extractPrimarySection ''<scr<script></script>ipt>x</script>'') = ''<script>x</script>''
   \<and> occurs True ''<script'' (sanitizedHtml (extractPrimarySection ''<scr<script></script>ipt>x</script>''))"
  by code_simp

section \<open>Event-handler attributes\<close>

text \<open>
  A single event-handler attribute in one of the three value forms, in text without any
  other \<^verbatim>\<open>=\<close> and without \<^verbatim>\<open><script\<close>, is removed, and no handler is left.
\<close>

lemma single_handler_removed:
  assumes ok: "handler_ok w kw name sp1 sp2 q v q'"
    and a: "CHR ''='' \<notin> set a" and c: "CHR ''='' \<notin> set c"
    and s: "\<not> occurs True ''<script'' (a @ handler_text w kw name sp1 sp2 q v q' @ c)"
  shows "\<not> has_handler (sanitizeMarkup (a @ handler_text w kw name sp1 sp2 q v q' @ c))"
proof -
  let ?s = "a @ handler_text w kw name sp1 sp2 q v q' @ c"
  let ?P = "\<lambda>x. x \<noteq> CHR ''=''"
  have 0: "remove_all script_rx ?s = ?s"
    unfolding remove_all_def script_rx_def seqs.simps
    by (rule replace_all_lit_seq_absent [OF s])
  have same: "remove_all (handler_rx (value_rx q q')) ?s = a @ c"
    by (rule remove_handler_same [OF ok a c])
  have other: "remove_all (handler_rx (value_rx q0 q1)) ?s = ?s"
    if "q0 \<noteq> q" "\<not> is_space q0" "q0 \<notin> set lower_letters" "q0 \<notin> set upper_letters" for q0 q1
    unfolding value_rx_Seq by (rule remove_handler_other [OF ok a c that])
  from a c have P: "list_all ?P (a @ c)" by (auto simp: list_all_iff)
  from ok have "(q = CHR 0x22 \<and> q' = CHR 0x22) \<or> (q = CHR 0x27 \<and> q' = CHR 0x27)
      \<or> (q = CHR ''{'' \<and> q' = CHR ''}'')"
    by (simp add: handler_ok_def)
  then have "list_all ?P (sanitizeMarkup ?s)"
  proof (elim disjE conjE)
    assume q: "q = CHR 0x22" "q' = CHR 0x22"
    from same have "remove_all (handler_rx dq_value) ?s = a @ c"
      by (simp add: value_rx_forms q)
    with 0 P show ?thesis by (simp add: sanitizeMarkup_def remove_all_keeps)
  next
    assume q: "q = CHR 0x27" "q' = CHR 0x27"
    have "remove_all (handler_rx dq_value) ?s = ?s"
      unfolding value_rx_forms
      by (rule other) (simp_all add: q is_space_def lower_letters_def upper_letters_def)
    moreover from same have "remove_all (handler_rx sq_value) ?s = a @ c"
      by (simp add: value_rx_forms q)
    ultimately show ?thesis using 0 P by (simp add: sanitizeMarkup_def remove_all_keeps)
  next
    assume q: "q = CHR ''{''" "q' = CHR ''}''"
    have "remove_all (handler_rx dq_value) ?s = ?s"
      unfolding value_rx_forms
      by (rule other) (simp_all add: q is_space_def lower_letters_def upper_letters_def)
    moreover have "remove_all (handler_rx sq_value) ?s = ?s"
      unfolding value_rx_forms
      by (rule other) (simp_all add: q is_space_def lower_letters_def upper_letters_def)
    moreover from same have "remove_all (handler_rx brace_value) ?s = a @ c"
      by (simp add: value_rx_forms q)
    ultimately show ?thesis using 0 P by (simp add: sanitizeMarkup_def remove_all_keeps)
  qed
  then have "CHR ''='' \<notin> set (sanitizeMarkup ?s)" by (auto simp: list_all_iff)
  then show ?thesis by (auto dest: has_handler_eq)
qed

text \<open>
  C2.  The input \<^verbatim>\<open><a on onclick="x"click="y">\<close> contains a double-quoted event-handler
  attribute, and the sanitized markup that \<^verbatim>\<open>extractPrimarySection\<close> returns for it is
  \<^verbatim>\<open><a onclick="y">\<close>: the attribute is removed in one scan, the text around it joins into a
  new handler, and the result contains a match of \<^verbatim>\<open>on[a-zA-Z]+=\<close>.
\<close>

theorem C2_handler_survives:
  "find_match True (handler_rx dq_value) ''<a on onclick=\"x\"click=\"y\">'' = Some (5, '' onclick=\"x\"'')
   \<and> sanitizedHtml (extractPrimarySection ''<a on onclick=\"x\"click=\"y\">'') = ''<a onclick=\"y\">''
   \<and> has_handler (sanitizedHtml (extractPrimarySection ''<a on onclick=\"x\"click=\"y\">''))"
  by code_simp

end
